theory Spec2Isabelle
  imports Complex_Main "HOL-Library.AList" "HOL-Library.Extended_Nat"
begin

section \<open>Data model (types/Node.ts, types/Message.ts)\<close>

text \<open>
  Identifiers are the uuid strings of the source. A JavaScript \<open>Set<string>\<close> is a list
  without repetition in insertion order (\<open>forEach\<close> visits it in that order); a
  \<open>Map<string, V>\<close> is an association list in insertion order, with
  \<open>AList.update\<close> for \<open>set\<close> (an existing key keeps its place, a new key goes last),
  \<open>AList.delete\<close> for \<open>delete\<close> and \<open>map_of\<close> for \<open>get\<close>.
  Timestamps (\<open>Date.now()\<close>, integral milliseconds) are \<open>int\<close>; the other JavaScript
  numbers are read as \<open>real\<close>. Every \<open>Date.now()\<close> is a parameter \<open>now\<close> of
  the operation that reads it.
\<close>

type_synonym node_id = string

datatype NodeType = Source | Sink

datatype RoutingMode = Intelligent | Flooding | NoConnections | Inactive

datatype FloodingReason = NoRoutes | RoutesExpired | ReasonNoConnections | HasInactiveRoutes

datatype MessageType = Triage | Normal

datatype TriageSeverity = Black | Green | Yellow | Red

record RoutingTableEntry =
  nextHops :: "(node_id \<times> nat) list"
  lastUpdate :: int

record InactiveRoutingTableEntry =
  sinkId :: node_id
  lastActiveEntry :: RoutingTableEntry
  inactiveSince :: int

record RoutingState =
  mode :: RoutingMode
  activeRoutes :: nat
  expiredRoutes :: nat
  inactiveRoutes :: nat
  floodingReason :: "FloodingReason option"
  lastStateChange :: int

record QueuedTriage =
  qTriageId :: string
  qSeverity :: TriageSeverity
  queuedAt :: int

text \<open>
  The fields \<open>radius\<close>, \<open>color\<close>, \<open>selected\<close> and \<open>metadata\<close> of a node are read by
  the renderers only and are left out.
\<close>

record Node =
  nodeId :: node_id
  nodeType :: NodeType
  position :: "real \<times> real"
  velocity :: "real \<times> real"
  nodeConnectionRadius :: real
  connections :: "node_id list"
  lastMessageReceivedAt :: "int option"
  triageStore :: "string list"
  triageQueue :: "QueuedTriage list"
  sentTriagesToSinks :: "(string \<times> node_id list) list"
  routingTable :: "(node_id \<times> RoutingTableEntry) list"
  inactiveRoutingTables :: "(node_id \<times> InactiveRoutingTableEntry) list"
  routingState :: RoutingState

text \<open>
  The transport id of a message (a fresh \<open>uuidv4()\<close> that nothing in the model reads) is
  left out; every other field is kept.
\<close>

record Message =
  fromNodeId :: node_id
  toNodeId :: node_id
  progress :: real
  speed :: real
  color :: string
  createdAt :: int
  msgType :: MessageType
  triageId :: "string option"
  triageSeverity :: "TriageSeverity option"

text \<open>
  The model object. \<open>notifications\<close> counts the calls of \<open>notifyListeners()\<close>, each of
  which invokes every subscribed listener once.
\<close>

record World =
  nodes :: "Node list"
  messages :: "Message list"
  connectionRadius :: real
  inactiveRoutingTimeout :: real
  isAutoGenerating :: bool
  triageGenerationInterval :: real
  lastTriageGeneration :: int
  notifications :: nat

definition defaultSpeed :: real where
  "defaultSpeed = 2"

definition defaultColor :: string where
  "defaultColor = ''#F59E0B''"

definition triageColor :: string where
  "triageColor = ''#EF4444''"

fun triageSeverityColors :: "TriageSeverity \<Rightarrow> string" where
  "triageSeverityColors Black = ''#4B5563''"
| "triageSeverityColors Green = ''#10B981''"
| "triageSeverityColors Yellow = ''#F59E0B''"
| "triageSeverityColors Red = ''#EF4444''"

subsection \<open>Set and Map primitives\<close>

definition set_add :: "'a \<Rightarrow> 'a list \<Rightarrow> 'a list" where
  "set_add x xs = (if x \<in> set xs then xs else xs @ [x])"

definition set_add_all :: "'a list \<Rightarrow> 'a list \<Rightarrow> 'a list" where
  "set_add_all ys xs = foldl (\<lambda>acc y. set_add y acc) xs ys"

definition map_has :: "('k \<times> 'v) list \<Rightarrow> 'k \<Rightarrow> bool" where
  "map_has m k = (map_of m k \<noteq> None)"

text \<open>\<open>this.nodes.find(n => n.id === id)\<close>: the first node with that id.\<close>

definition getNode :: "node_id \<Rightarrow> Node list \<Rightarrow> Node option" where
  "getNode i ns = find (\<lambda>n. nodeId n = i) ns"

text \<open>Mutating the object that \<open>find\<close> returned: the first node with that id changes.\<close>

fun updateFirst :: "node_id \<Rightarrow> (Node \<Rightarrow> Node) \<Rightarrow> Node list \<Rightarrow> Node list" where
  "updateFirst i f [] = []"
| "updateFirst i f (n # ns) = (if nodeId n = i then f n # ns else n # updateFirst i f ns)"

definition notifyListeners :: "World \<Rightarrow> World" where
  "notifyListeners w = w\<lparr>notifications := Suc (notifications w)\<rparr>"

section \<open>Parameter setters and node removal\<close>

definition setInactiveRoutingTimeout :: "real \<Rightarrow> World \<Rightarrow> World" where
  "setInactiveRoutingTimeout timeout w = notifyListeners (w\<lparr>inactiveRoutingTimeout := timeout\<rparr>)"

definition setTriageGenerationInterval :: "real \<Rightarrow> World \<Rightarrow> World" where
  "setTriageGenerationInterval interval w =
     notifyListeners (w\<lparr>triageGenerationInterval := interval\<rparr>)"

text \<open>
  Sidebar.tsx, \<open>handleInactiveTimeoutChange\<close>: the slider value in seconds is clamped and
  converted to milliseconds before the model's setter is called.
\<close>

definition handleInactiveTimeoutChange :: "real \<Rightarrow> World \<Rightarrow> World" where
  "handleInactiveTimeoutChange valueSeconds w =
     (let clamped = max 1 (min (5 * 60) valueSeconds);
          valueMs = clamped * 1000
      in setInactiveRoutingTimeout valueMs w)"

text \<open>Sidebar.tsx, \<open>handleTriageIntervalChange\<close>: seconds to milliseconds, no clamp.\<close>

definition handleTriageIntervalChange :: "real \<Rightarrow> World \<Rightarrow> World" where
  "handleTriageIntervalChange valueSeconds w =
     setTriageGenerationInterval (valueSeconds * 1000) w"

definition removeNode :: "node_id \<Rightarrow> World \<Rightarrow> World" where
  "removeNode i w =
     notifyListeners
       (w\<lparr>nodes := filter (\<lambda>n. nodeId n \<noteq> i)
                      (map (\<lambda>n. n\<lparr>connections := removeAll i (connections n)\<rparr>) (nodes w))\<rparr>)"

text \<open>The guarded mutations: an unknown id returns before anything is touched.\<close>

definition updateNodeVelocity :: "node_id \<Rightarrow> real \<Rightarrow> real \<Rightarrow> World \<Rightarrow> World" where
  "updateNodeVelocity i vx vy w =
     (case getNode i (nodes w) of
        None \<Rightarrow> w
      | Some _ \<Rightarrow> notifyListeners (w\<lparr>nodes := updateFirst i (\<lambda>n. n\<lparr>velocity := (vx, vy)\<rparr>) (nodes w)\<rparr>))"

section \<open>Mode classifier (updateRoutingStates)\<close>

definition ROUTE_TIMEOUT :: int where
  "ROUTE_TIMEOUT = 5 * 60 * 1000"

text \<open>The counting loop over \<open>node.routingTable\<close>: (activeRoutes, expiredRoutes).\<close>

definition countRoutes :: "int \<Rightarrow> (node_id \<times> RoutingTableEntry) list \<Rightarrow> nat \<times> nat" where
  "countRoutes now rt =
     foldl (\<lambda>(a, e) (_, entry).
              if now - lastUpdate entry < ROUTE_TIMEOUT then (a + 1, e) else (a, e + 1))
           (0, 0) rt"

definition decideMode :: "Node \<Rightarrow> nat \<Rightarrow> nat \<Rightarrow> nat \<Rightarrow> RoutingMode \<times> FloodingReason option" where
  "decideMode node active expired inactive =
     (if length (connections node) = 0 then (NoConnections, Some ReasonNoConnections)
      else if nodeType node = Sink \<and> active = 0 \<and> expired = 0 \<and> inactive = 0
        then (Intelligent, None)
      else if inactive > 0 then (Inactive, Some HasInactiveRoutes)
      else if active > 0 then (Intelligent, None)
      else if expired > 0 then (Flooding, Some RoutesExpired)
      else (Flooding, Some NoRoutes))"

definition updateRoutingState :: "int \<Rightarrow> Node \<Rightarrow> Node" where
  "updateRoutingState now node =
     (let (active, expired) = countRoutes now (routingTable node);
          inactive = length (inactiveRoutingTables node);
          (m, reason) = decideMode node active expired inactive;
          previousMode = mode (routingState node);
          modeChanged = (m \<noteq> previousMode)
      in node\<lparr>routingState :=
           \<lparr>mode = m, activeRoutes = active, expiredRoutes = expired,
            inactiveRoutes = inactive, floodingReason = reason,
            lastStateChange = (if modeChanged then now else lastStateChange (routingState node))\<rparr>\<rparr>)"

definition updateRoutingStates :: "int \<Rightarrow> World \<Rightarrow> World" where
  "updateRoutingStates now w = w\<lparr>nodes := map (updateRoutingState now) (nodes w)\<rparr>"

section \<open>Target selector (getMultiRouteCap, selectRoutingTargets)\<close>

text \<open>Optional parameters are \<open>option\<close>s: \<open>None\<close> is \<open>undefined\<close>.\<close>

fun getMultiRouteCap :: "MessageType option \<Rightarrow> TriageSeverity option \<Rightarrow> nat" where
  "getMultiRouteCap (Some Triage) (Some Red) = 3"
| "getMultiRouteCap (Some Triage) (Some Yellow) = 2"
| "getMultiRouteCap (Some Triage) _ = 1"
| "getMultiRouteCap _ _ = 1"

text \<open>
  \<open>neighborCoverage\<close>: for each next hop of an active route, the set of sinks it leads to.
  A peer seen for the first time gets a new set holding the sink; a known peer's set gains
  the sink.
\<close>

definition addCoverage ::
  "node_id \<Rightarrow> node_id \<Rightarrow> (node_id \<times> node_id list) list \<Rightarrow> (node_id \<times> node_id list) list" where
  "addCoverage sid peerId cov =
     (case map_of cov peerId of
        None \<Rightarrow> AList.update peerId (set_add sid []) cov
      | Some sinks \<Rightarrow> AList.update peerId (set_add sid sinks) cov)"

definition coverEntry ::
  "node_id option \<Rightarrow> int \<Rightarrow> (node_id \<times> node_id list) list \<Rightarrow> node_id \<times> RoutingTableEntry
   \<Rightarrow> (node_id \<times> node_id list) list" where
  "coverEntry excludeNodeId now cov se =
     (let sid = fst se; entry = snd se
      in if now - lastUpdate entry < ROUTE_TIMEOUT
         then foldl (\<lambda>c hop. if Some (fst hop) = excludeNodeId then c
                               else addCoverage sid (fst hop) c)
                    cov (nextHops entry)
         else cov)"

definition neighborCoverage ::
  "Node \<Rightarrow> node_id option \<Rightarrow> int \<Rightarrow> (node_id \<times> node_id list) list" where
  "neighborCoverage node excludeNodeId now =
     foldl (coverEntry excludeNodeId now) [] (routingTable node)"

text \<open>\<open>getLoad\<close>: the messages in flight from the node to the peer.\<close>

definition getLoad :: "Node \<Rightarrow> Message list \<Rightarrow> node_id \<Rightarrow> nat" where
  "getLoad node msgs peerId =
     foldl (\<lambda>count m. if fromNodeId m = nodeId node \<and> toNodeId m = peerId \<and> progress m < 1
                        then count + 1 else count)
           0 msgs"

text \<open>The marginal gain of a peer: its sinks that are not covered yet.\<close>

definition marginalGain :: "node_id list \<Rightarrow> node_id list \<Rightarrow> nat" where
  "marginalGain coveredSinks sinks =
     foldl (\<lambda>gain s. if s \<notin> set coveredSinks then gain + 1 else gain) 0 sinks"

text \<open>
  One pass of \<open>remaining.forEach\<close>: \<open>(bestPeer, bestGain, bestLoad)\<close>, starting from
  \<open>(null, -1, Infinity)\<close>.
\<close>

definition considerPeer ::
  "(node_id \<times> node_id list) list \<Rightarrow> (node_id \<Rightarrow> nat) \<Rightarrow> node_id list
   \<Rightarrow> node_id option \<times> int \<times> enat \<Rightarrow> node_id \<Rightarrow> node_id option \<times> int \<times> enat" where
  "considerPeer cov load coveredSinks best peerId =
     (let bestGain = fst (snd best); bestLoad = snd (snd best);
          sinks = the (map_of cov peerId);
          gain = int (marginalGain coveredSinks sinks);
          l = enat (load peerId)
      in if gain > bestGain \<or> (gain = bestGain \<and> l < bestLoad)
         then (Some peerId, gain, l) else best)"

definition pickBest ::
  "(node_id \<times> node_id list) list \<Rightarrow> (node_id \<Rightarrow> nat) \<Rightarrow> node_id list \<Rightarrow> node_id list
   \<Rightarrow> node_id option \<times> int \<times> enat" where
  "pickBest cov load coveredSinks remaining =
     foldl (considerPeer cov load coveredSinks) (None, - 1, \<infinity>) remaining"

lemma considerPeer_fst_mem:
  "fst (considerPeer cov load cs best p) = Some q \<Longrightarrow> q = p \<or> fst best = Some q"
  by (auto simp: considerPeer_def Let_def split: if_splits)

lemma foldl_considerPeer_mem:
  "fst (foldl (considerPeer cov load cs) best xs) = Some q \<Longrightarrow> q \<in> set xs \<or> fst best = Some q"
proof (induction xs arbitrary: best)
  case Nil
  then show ?case by simp
next
  case (Cons x xs)
  from Cons.IH [OF Cons.prems [simplified]]
  show ?case using considerPeer_fst_mem [of cov load cs best x q] by auto
qed

lemma pickBest_mem: "fst (pickBest cov load cs remaining) = Some q \<Longrightarrow> q \<in> set remaining"
  using foldl_considerPeer_mem [of cov load cs "(None, - 1, \<infinity>)" remaining q]
  by (simp add: pickBest_def)

text \<open>The greedy \<open>while\<close> loop; it returns \<open>selected\<close>.\<close>

function greedyLoop ::
  "nat \<Rightarrow> (node_id \<times> node_id list) list \<Rightarrow> (node_id \<Rightarrow> nat) \<Rightarrow> node_id list \<Rightarrow> node_id list
   \<Rightarrow> node_id list \<Rightarrow> node_id list" where
  "greedyLoop cap cov load selected coveredSinks remaining =
     (if length selected < cap \<and> length remaining > 0
      then (case fst (pickBest cov load coveredSinks remaining) of
              None \<Rightarrow> selected
            | Some bestPeer \<Rightarrow>
                greedyLoop cap cov load (set_add bestPeer selected)
                  (set_add_all (the (map_of cov bestPeer)) coveredSinks)
                  (removeAll bestPeer remaining))
      else selected)"
  by pat_completeness auto
termination
proof (relation "measure (\<lambda>(cap, cov, load, selected, coveredSinks, remaining). length remaining)")
  show "wf (measure (\<lambda>(cap, cov, load, selected, coveredSinks, remaining). length remaining))"
    by simp
next
  fix cap :: nat and cov :: "(node_id \<times> node_id list) list" and load :: "node_id \<Rightarrow> nat"
    and selected coveredSinks remaining :: "node_id list" and bestPeer :: node_id
  assume "fst (pickBest cov load coveredSinks remaining) = Some bestPeer"
  then have "bestPeer \<in> set remaining" by (rule pickBest_mem)
  then have "length (removeAll bestPeer remaining) < length remaining"
    by (simp add: length_removeAll_less)
  then show "((cap, cov, load, set_add bestPeer selected,
               set_add_all (the (map_of cov bestPeer)) coveredSinks,
               removeAll bestPeer remaining),
              (cap, cov, load, selected, coveredSinks, remaining))
             \<in> measure (\<lambda>(cap, cov, load, selected, coveredSinks, remaining). length remaining)"
    by simp
qed

declare greedyLoop.simps [simp del]

text \<open>A JavaScript string is truthy when it is not empty.\<close>

definition truthy :: "string option \<Rightarrow> bool" where
  "truthy s = (case s of None \<Rightarrow> False | Some t \<Rightarrow> t \<noteq> [])"

text \<open>The fallback after the loop: with nothing selected, the candidate of least load.\<close>

definition fallbackPick :: "(node_id \<Rightarrow> nat) \<Rightarrow> node_id list \<Rightarrow> node_id list \<Rightarrow> node_id list" where
  "fallbackPick load candidates selected =
     (if length selected = 0
      then (let r = foldl (\<lambda>(minLoad, pick) peerId.
                             if enat (load peerId) < minLoad then (enat (load peerId), Some peerId)
                             else (minLoad, pick))
                          (\<infinity>, None) candidates
            in if truthy (snd r) then set_add (the (snd r)) selected else selected)
      else selected)"

definition selectRoutingTargets ::
  "Node \<Rightarrow> node_id option \<Rightarrow> MessageType option \<Rightarrow> TriageSeverity option \<Rightarrow> Message list \<Rightarrow> int
   \<Rightarrow> node_id list" where
  "selectRoutingTargets node excludeNodeId messageType severity msgs now =
     (if mode (routingState node) = Intelligent then
        (let cov = neighborCoverage node excludeNodeId now;
             candidates = map fst cov
         in if length candidates = 0 then []
            else (let cap = getMultiRouteCap messageType severity
                  in if cap \<ge> length candidates then set_add_all candidates []
                     else (let remaining = set_add_all candidates [];
                               selected = greedyLoop cap cov (getLoad node msgs) [] [] remaining;
                               selected' = fallbackPick (getLoad node msgs) candidates selected
                           in set_add_all selected' [])))
      else if mode (routingState node) = Flooding \<or> mode (routingState node) = Inactive then
        foldl (\<lambda>targets peerId. if Some peerId \<noteq> excludeNodeId then set_add peerId targets
                                 else targets)
              [] (connections node)
      else [])"

section \<open>Message pipeline (sendMessage, onMessageArrival)\<close>

text \<open>
  Recording in \<open>sentTriagesToSinks\<close> that a triage went towards some sinks: the set of the
  triage is created when it is missing, then every sink is added to it.
\<close>

definition markSent :: "string \<Rightarrow> node_id list \<Rightarrow> Node \<Rightarrow> Node" where
  "markSent tid sinkIds n =
     (let perTriage = (case map_of (sentTriagesToSinks n) tid of None \<Rightarrow> [] | Some s \<Rightarrow> s)
      in n\<lparr>sentTriagesToSinks :=
             AList.update tid (set_add_all sinkIds perTriage) (sentTriagesToSinks n)\<rparr>)"

text \<open>The sinks a send or forward of a node aims at: itself if it is a sink, and its routes.\<close>

definition sinkIdsFor :: "Node \<Rightarrow> node_id list" where
  "sinkIdsFor node =
     set_add_all (map fst (routingTable node))
       (if nodeType node = Sink then set_add (nodeId node) [] else [])"

text \<open>The loop over \<open>targetPeers\<close> of \<open>sendMessage\<close>: push one message, then mark.\<close>

definition newMessage ::
  "int \<Rightarrow> node_id \<Rightarrow> MessageType \<Rightarrow> string option \<Rightarrow> TriageSeverity option \<Rightarrow> node_id
   \<Rightarrow> Message" where
  "newMessage now fromId messageType tid severity toId =
     \<lparr>fromNodeId = fromId, toNodeId = toId, progress = 0, speed = defaultSpeed,
      color = (case (messageType, severity) of
                 (Triage, Some sv) \<Rightarrow> triageSeverityColors sv
               | (Triage, None) \<Rightarrow> triageColor
               | (Normal, _) \<Rightarrow> defaultColor),
      createdAt = now, msgType = messageType, triageId = tid, triageSeverity = severity\<rparr>"

definition sendToPeer ::
  "int \<Rightarrow> node_id \<Rightarrow> MessageType \<Rightarrow> string option \<Rightarrow> TriageSeverity option \<Rightarrow> node_id list
   \<Rightarrow> World \<Rightarrow> node_id \<Rightarrow> World" where
  "sendToPeer now fromId messageType tid severity sinkIdsForSend w toId =
     (let message = newMessage now fromId messageType tid severity toId;
          w1 = w\<lparr>messages := messages w @ [message]\<rparr>
      in if messageType = Triage \<and> truthy tid \<and> length sinkIdsForSend > 0
         then w1\<lparr>nodes := updateFirst fromId (markSent (the tid) sinkIdsForSend) (nodes w1)\<rparr>
         else w1)"

text \<open>The \<open>severity\<close> of \<open>sendMessage\<close>: red by default for a triage, undefined otherwise.\<close>

definition sendSeverity :: "MessageType \<Rightarrow> TriageSeverity option \<Rightarrow> TriageSeverity option" where
  "sendSeverity messageType triageSeverityArg =
     (if messageType = Triage
      then Some (case triageSeverityArg of Some sv \<Rightarrow> sv | None \<Rightarrow> Red)
      else None)"

text \<open>
  \<open>sendMessage\<close>; \<open>newId\<close> is the value \<open>uuidv4()\<close> returns for the triage id, and the
  message type has its default \<open>normal\<close> filled in by the caller.
\<close>

definition sendMessage ::
  "int \<Rightarrow> string \<Rightarrow> node_id \<Rightarrow> MessageType \<Rightarrow> TriageSeverity option \<Rightarrow> World \<Rightarrow> World" where
  "sendMessage now newId fromId messageType triageSeverityArg w =
     (case getNode fromId (nodes w) of
        None \<Rightarrow> w
      | Some fromNode0 \<Rightarrow>
         (let tid = (if messageType = Triage then Some newId else None);
              severity = sendSeverity messageType triageSeverityArg;
              stored = (messageType = Triage \<and> truthy tid);
              w1 = (if stored
                    then w\<lparr>nodes := updateFirst fromId
                           (\<lambda>n. n\<lparr>triageStore := set_add newId (triageStore n)\<rparr>) (nodes w)\<rparr>
                    else w)
          in if stored \<and> length (connections fromNode0) = 0
             then notifyListeners
                    (w1\<lparr>nodes := updateFirst fromId
                           (\<lambda>n. n\<lparr>triageQueue := triageQueue n @
                                  [\<lparr>qTriageId = newId,
                                    qSeverity = (case severity of Some sv \<Rightarrow> sv | None \<Rightarrow> Red),
                                    queuedAt = now\<rparr>]\<rparr>) (nodes w1)\<rparr>)
             else (case getNode fromId (nodes w1) of
                     None \<Rightarrow> w1
                   | Some fromNode \<Rightarrow>
                      (let targetPeers = selectRoutingTargets fromNode (Some fromId)
                                           (Some messageType) severity (messages w1) now;
                           sinkIdsForSend = (if messageType = Triage \<and> truthy tid
                                             then sinkIdsFor fromNode else [])
                       in notifyListeners
                            (foldl (sendToPeer now fromId messageType tid severity sinkIdsForSend)
                                   w1 targetPeers)))))"

text \<open>The loop over \<open>targetPeers\<close> of \<open>onMessageArrival\<close>.\<close>

definition forwardedMessage :: "int \<Rightarrow> node_id \<Rightarrow> Message \<Rightarrow> node_id \<Rightarrow> Message" where
  "forwardedMessage now nid message toId =
     \<lparr>fromNodeId = nid, toNodeId = toId, progress = 0, speed = defaultSpeed,
      color = color message, createdAt = now, msgType = msgType message,
      triageId = triageId message, triageSeverity = triageSeverity message\<rparr>"

definition forwardToPeer ::
  "int \<Rightarrow> node_id \<Rightarrow> Message \<Rightarrow> node_id list \<Rightarrow> World \<Rightarrow> node_id \<Rightarrow> World" where
  "forwardToPeer now nid message sinkIdsForForward w toId =
     (let forwarded = forwardedMessage now nid message toId;
          w1 = w\<lparr>messages := messages w @ [forwarded]\<rparr>
      in if msgType message = Triage \<and> truthy (triageId message) \<and> length sinkIdsForForward > 0
         then w1\<lparr>nodes := updateFirst nid (markSent (the (triageId message)) sinkIdsForForward)
                             (nodes w1)\<rparr>
         else w1)"

text \<open>The forwarding block of \<open>onMessageArrival\<close>, for the node as it is in \<open>w\<close>.\<close>

definition forwardBlock :: "int \<Rightarrow> Message \<Rightarrow> World \<Rightarrow> World" where
  "forwardBlock now message w =
     (case getNode (toNodeId message) (nodes w) of
        None \<Rightarrow> w
      | Some node \<Rightarrow>
         (let targetPeers = selectRoutingTargets node (Some (fromNodeId message))
                              (Some (msgType message)) (triageSeverity message) (messages w) now;
              isTriage = (msgType message = Triage \<and> truthy (triageId message));
              sinkIdsForForward = (if isTriage then sinkIdsFor node else []);
              allAlreadySent =
                (isTriage \<and> mode (routingState node) = Intelligent \<and>
                 (case map_of (sentTriagesToSinks node) (the (triageId message)) of
                    None \<Rightarrow> False
                  | Some perTriage \<Rightarrow>
                      length sinkIdsForForward > 0 \<and>
                      list_all (\<lambda>sid. sid \<in> set perTriage) sinkIdsForForward))
          in if allAlreadySent then w
             else notifyListeners
                    (foldl (forwardToPeer now (nodeId node) message sinkIdsForForward)
                           w targetPeers)))"

definition onMessageArrival :: "int \<Rightarrow> Message \<Rightarrow> World \<Rightarrow> World" where
  "onMessageArrival now message w =
     (case getNode (toNodeId message) (nodes w) of
        None \<Rightarrow> w
      | Some node \<Rightarrow>
         (let nid = toNodeId message;
              w1 = w\<lparr>nodes := updateFirst nid (\<lambda>n. n\<lparr>lastMessageReceivedAt := Some now\<rparr>)
                                  (nodes w)\<rparr>
          in if msgType message = Triage \<and> truthy (triageId message)
             then (let tid = the (triageId message);
                       flooding = (mode (routingState node) = Flooding
                                   \<or> mode (routingState node) = Inactive)
                   in if flooding \<and> tid \<in> set (triageStore node) then w1
                      else (let w2 = w1\<lparr>nodes := updateFirst nid
                                      (\<lambda>n. n\<lparr>triageStore := set_add tid (triageStore n)\<rparr>)
                                      (nodes w1)\<rparr>
                            in if length (connections node) = 0
                               then notifyListeners
                                      (w2\<lparr>nodes := updateFirst nid
                                             (\<lambda>n. n\<lparr>triageQueue := triageQueue n @
                                                    [\<lparr>qTriageId = tid,
                                                      qSeverity = (case triageSeverity message of
                                                                     Some sv \<Rightarrow> sv | None \<Rightarrow> Red),
                                                      queuedAt = now\<rparr>]\<rparr>) (nodes w2)\<rparr>)
                               else forwardBlock now message w2))
             else forwardBlock now message w1))"

section \<open>Link recomputer, queue flush and new-link replay (updateConnections)\<close>

definition inRange :: "Node \<Rightarrow> Node \<Rightarrow> bool" where
  "inRange nodeA nodeB =
     (let dx = fst (position nodeB) - fst (position nodeA);
          dy = snd (position nodeB) - snd (position nodeA);
          distance = sqrt (dx * dx + dy * dy);
          maxRadius = max (nodeConnectionRadius nodeA) (nodeConnectionRadius nodeB)
      in distance \<le> maxRadius)"

definition addConnection :: "nat \<Rightarrow> node_id \<Rightarrow> Node list \<Rightarrow> Node list" where
  "addConnection i peerId ns = ns[i := (ns ! i)\<lparr>connections := set_add peerId (connections (ns ! i))\<rparr>]"

definition linkPair :: "Node list \<Rightarrow> nat \<times> nat \<Rightarrow> Node list" where
  "linkPair ns ij =
     (let i = fst ij; j = snd ij
      in if inRange (ns ! i) (ns ! j)
         then addConnection j (nodeId (ns ! i)) (addConnection i (nodeId (ns ! j)) ns)
         else ns)"

text \<open>The pairs \<open>i < j\<close> in the order of the two nested \<open>for\<close> loops.\<close>

definition nodePairs :: "nat \<Rightarrow> (nat \<times> nat) list" where
  "nodePairs n = concat (map (\<lambda>i. map (\<lambda>j. (i, j)) [i + 1 ..< n]) [0 ..< n])"

text \<open>Clear every neighbor set, then link every pair in range.\<close>

definition rebuildLinks :: "Node list \<Rightarrow> Node list" where
  "rebuildLinks ns = foldl linkPair (map (\<lambda>n. n\<lparr>connections := []\<rparr>) ns) (nodePairs (length ns))"

text \<open>
  \<open>sendQueuedTriage\<close>, for the node at index \<open>i\<close> (the object the caller holds): one
  message to every neighbor, with the queued severity.
\<close>

definition sendQueuedTriage :: "int \<Rightarrow> nat \<Rightarrow> string \<Rightarrow> TriageSeverity \<Rightarrow> World \<Rightarrow> World" where
  "sendQueuedTriage now i tid sev w =
     (let fromNode = nodes w ! i
      in if tid \<notin> set (triageStore fromNode) then w
         else (let targetPeers = set_add_all (connections fromNode) []
               in notifyListeners
                    (w\<lparr>messages := messages w @
                          map (newMessage now (nodeId fromNode) Triage (Some tid) (Some sev))
                              targetPeers\<rparr>)))"

definition flushQueue :: "int \<Rightarrow> nat \<Rightarrow> World \<Rightarrow> World" where
  "flushQueue now i w =
     (let node = nodes w ! i
      in if length (connections node) > 0 \<and> length (triageQueue node) > 0
         then (let queuedTriages = triageQueue node;
                   w1 = w\<lparr>nodes := (nodes w)[i := node\<lparr>triageQueue := []\<rparr>]\<rparr>
               in foldl (\<lambda>w' q. sendQueuedTriage now i (qTriageId q) (qSeverity q) w')
                        w1 queuedTriages)
         else w)"

text \<open>A new link to a sink: every triage of the node that the sink has not seen.\<close>

definition replayToSink :: "int \<Rightarrow> nat \<Rightarrow> Node \<Rightarrow> World \<Rightarrow> World" where
  "replayToSink now i peer w =
     (let node = nodes w ! i;
          w1 = foldl (\<lambda>w' tid.
                        if tid \<notin> set (triageStore peer)
                        then w'\<lparr>messages := messages w' @
                                [newMessage now (nodeId node) Triage (Some tid) (Some Red)
                                   (nodeId peer)]\<rparr>
                        else w')
                     w (triageStore node)
      in if length (messages w1) > 0 then notifyListeners w1 else w1)"

text \<open>A new link to another peer, for one triage of the node.\<close>

definition replayTriage :: "int \<Rightarrow> nat \<Rightarrow> Node \<Rightarrow> node_id list \<Rightarrow> World \<Rightarrow> string \<Rightarrow> World" where
  "replayTriage now i peer reachableSinksFromPeer w tid =
     (let node = nodes w ! i;
          perTriage = map_of (sentTriagesToSinks node) tid;
          hasNewSinkTarget =
            list_ex (\<lambda>sid. case perTriage of None \<Rightarrow> True | Some per \<Rightarrow> sid \<notin> set per)
                    reachableSinksFromPeer
      in if \<not> hasNewSinkTarget then w
         else (let w1 = (if tid \<notin> set (triageStore peer)
                         then w\<lparr>messages := messages w @
                                 [newMessage now (nodeId node) Triage (Some tid) (Some Red)
                                    (nodeId peer)]\<rparr>
                         else w)
               in w1\<lparr>nodes := (nodes w1)[i := markSent tid reachableSinksFromPeer
                                                 (nodes w1 ! i)]\<rparr>))"

definition replayGeneral :: "int \<Rightarrow> nat \<Rightarrow> Node \<Rightarrow> World \<Rightarrow> World" where
  "replayGeneral now i peer w =
     (let node = nodes w ! i;
          reachableSinksFromPeer = map fst (routingTable peer)
      in if length reachableSinksFromPeer > 0 \<and> length (triageStore node) > 0
         then (let w1 = foldl (replayTriage now i peer reachableSinksFromPeer) w
                              (triageStore node)
               in if length (messages w1) > 0 then notifyListeners w1 else w1)
         else w)"

text \<open>The callback of \<open>node.connections.forEach\<close>: a peer that was no neighbor before.\<close>

definition syncNewLink :: "int \<Rightarrow> node_id list \<Rightarrow> nat \<Rightarrow> World \<Rightarrow> node_id \<Rightarrow> World" where
  "syncNewLink now prev i w peerId =
     (if peerId \<in> set prev then w
      else (case getNode peerId (nodes w) of
              None \<Rightarrow> w
            | Some peer \<Rightarrow>
                if nodeType peer = Sink \<and> length (triageStore (nodes w ! i)) > 0
                then replayToSink now i peer w
                else replayGeneral now i peer w))"

text \<open>The callback of the last \<open>this.nodes.forEach\<close> of \<open>updateConnections\<close>.\<close>

definition processNode ::
  "int \<Rightarrow> (node_id \<times> node_id list) list \<Rightarrow> World \<Rightarrow> nat \<Rightarrow> World" where
  "processNode now previousNeighbors w i =
     (let w1 = flushQueue now i w;
          node = nodes w1 ! i;
          prev = (case map_of previousNeighbors (nodeId node) of None \<Rightarrow> [] | Some p \<Rightarrow> p)
      in foldl (syncNewLink now prev i) w1 (connections node))"

text \<open>
  \<open>updateConnections\<close>. The map \<open>previousConnectionStates\<close> feeds a log line only and is
  left out.
\<close>

definition updateConnections :: "int \<Rightarrow> World \<Rightarrow> World" where
  "updateConnections now w =
     (let previousNeighbors =
            foldl (\<lambda>m n. AList.update (nodeId n) (connections n) m) [] (nodes w);
          w1 = w\<lparr>nodes := rebuildLinks (nodes w)\<rparr>
      in foldl (processNode now previousNeighbors) w1 [0 ..< length (nodes w1)])"

definition updateNodePosition :: "int \<Rightarrow> node_id \<Rightarrow> real \<Rightarrow> real \<Rightarrow> World \<Rightarrow> World" where
  "updateNodePosition now i x y w =
     (case getNode i (nodes w) of
        None \<Rightarrow> w
      | Some _ \<Rightarrow>
          notifyListeners
            (updateConnections now
               (w\<lparr>nodes := updateFirst i (\<lambda>n. n\<lparr>position := (x, y)\<rparr>) (nodes w)\<rparr>)))"

section \<open>New-sink replay (syncNewSinkFromExistingSinks)\<close>

text \<open>One message per next hop of the route to the new sink, then the bookkeeping.\<close>

definition syncTriageSend ::
  "int \<Rightarrow> nat \<Rightarrow> nat \<Rightarrow> RoutingTableEntry \<Rightarrow> World \<Rightarrow> string \<Rightarrow> World" where
  "syncTriageSend now j k routeEntry w tid =
     (let existingSink = nodes w ! k; newSink = nodes w ! j;
          w1 = w\<lparr>messages := messages w @
                  map (\<lambda>hop. newMessage now (nodeId existingSink) Triage (Some tid) (Some Red)
                                (fst hop))
                      (nextHops routeEntry)\<rparr>
      in w1\<lparr>nodes := (nodes w1)[k := markSent tid [nodeId newSink] (nodes w1 ! k)]\<rparr>)"

text \<open>For one triage of the existing sink at index \<open>k\<close>, towards the new sink at \<open>j\<close>.\<close>

definition syncTriage :: "int \<Rightarrow> nat \<Rightarrow> nat \<Rightarrow> RoutingTableEntry \<Rightarrow> World \<Rightarrow> string \<Rightarrow> World" where
  "syncTriage now j k routeEntry w tid =
     (let existingSink = nodes w ! k; newSink = nodes w ! j
      in if tid \<in> set (triageStore newSink) then w
         else (case map_of (sentTriagesToSinks existingSink) tid of
                 Some per \<Rightarrow>
                   if nodeId newSink \<in> set per then w
                   else syncTriageSend now j k routeEntry w tid
               | None \<Rightarrow> syncTriageSend now j k routeEntry w tid))"

definition syncFromSink :: "int \<Rightarrow> nat \<Rightarrow> World \<Rightarrow> nat \<Rightarrow> World" where
  "syncFromSink now j w k =
     (let existingSink = nodes w ! k; newSink = nodes w ! j
      in case map_of (routingTable existingSink) (nodeId newSink) of
           None \<Rightarrow> w
         | Some routeEntry \<Rightarrow>
             if length (nextHops routeEntry) = 0 then w
             else foldl (syncTriage now j k routeEntry) w (triageStore existingSink))"

definition syncNewSinkFromExistingSinks :: "int \<Rightarrow> nat \<Rightarrow> World \<Rightarrow> World" where
  "syncNewSinkFromExistingSinks now j w =
     (let newSink = nodes w ! j
      in if nodeType newSink \<noteq> Sink then w
         else (let existingSinks =
                     filter (\<lambda>k. nodeType (nodes w ! k) = Sink
                                  \<and> nodeId (nodes w ! k) \<noteq> nodeId newSink)
                            [0 ..< length (nodes w)]
               in if length existingSinks = 0 then w
                  else notifyListeners (foldl (syncFromSink now j) w existingSinks)))"

section \<open>Routing-table builder (updateRoutingTables)\<close>

text \<open>
  The BFS from a sink. \<open>distances\<close> is only read with \<open>get\<close> and \<open>has\<close>, so it is a
  map; the queue is a list. The map \<open>parents\<close> is written and never read, and is left out.
\<close>

definition visitNeighbor ::
  "nat \<Rightarrow> (node_id \<rightharpoonup> nat) \<times> node_id list \<Rightarrow> node_id \<Rightarrow> (node_id \<rightharpoonup> nat) \<times> node_id list" where
  "visitNeighbor currentDistance dq neighborId =
     (if fst dq neighborId = None
      then ((fst dq)(neighborId \<mapsto> currentDistance + 1), snd dq @ [neighborId])
      else dq)"

definition visitAll ::
  "nat \<Rightarrow> (node_id \<rightharpoonup> nat) \<times> node_id list \<Rightarrow> node_id list \<Rightarrow> (node_id \<rightharpoonup> nat) \<times> node_id list" where
  "visitAll currentDistance dq conns = foldl (visitNeighbor currentDistance) dq conns"

lemma visitAll_Nil [simp]: "visitAll d dq [] = dq"
  by (simp add: visitAll_def)

lemma visitAll_Cons [simp]: "visitAll d dq (c # cs) = visitAll d (visitNeighbor d dq c) cs"
  by (simp add: visitAll_def)

lemma visitAll_dom: "dom (fst (visitAll d (ds, q) cs)) = dom ds \<union> set cs"
  by (induction cs arbitrary: ds q) (auto simp: visitNeighbor_def)

lemma visitAll_length:
  "length (snd (visitAll d (ds, q) cs)) = length q + card (set cs - dom ds)"
proof (induction cs arbitrary: ds q)
  case Nil
  then show ?case by simp
next
  case (Cons c cs)
  show ?case
  proof (cases "ds c")
    case None
    have e: "set (c # cs) - dom ds = insert c (set cs - dom (ds(c \<mapsto> d + 1)))"
      using None by auto
    have "c \<notin> set cs - dom (ds(c \<mapsto> d + 1))" by simp
    then have k: "card (set (c # cs) - dom ds) = Suc (card (set cs - dom (ds(c \<mapsto> d + 1))))"
      unfolding e by (simp del: dom_fun_upd)
    have ih: "length (snd (visitAll d (ds(c \<mapsto> d + 1), q @ [c]) cs))
              = length (q @ [c]) + card (set cs - dom (ds(c \<mapsto> d + 1)))"
      by (rule Cons.IH)
    have step: "visitAll d (ds, q) (c # cs) = visitAll d (ds(c \<mapsto> d + 1), q @ [c]) cs"
      using None by (simp add: visitNeighbor_def)
    show ?thesis
      unfolding step ih k by simp
  next
    case (Some a)
    then have "set (c # cs) - dom ds = set cs - dom ds" by auto
    then show ?thesis
      using Some Cons.IH [of ds q] by (simp add: visitNeighbor_def)
  qed
qed

definition allIds :: "Node list \<Rightarrow> node_id set" where
  "allIds ns = (\<Union>n \<in> set ns. set (connections n))"

lemma getNode_Some_mem: "getNode i ns = Some n \<Longrightarrow> n \<in> set ns \<and> nodeId n = i"
  by (auto simp: getNode_def find_Some_iff)

lemma bfs_measure_decreases:
  assumes "getNode c ns = Some n"
  shows "length (snd (visitAll d (ds, q) (connections n)))
         + card (allIds ns - dom (fst (visitAll d (ds, q) (connections n))))
         < length (c # q) + card (allIds ns - dom ds)"
proof -
  let ?C = "set (connections n)"
  have sub: "?C \<subseteq> allIds ns"
    using getNode_Some_mem [OF assms] by (auto simp: allIds_def)
  have fin: "finite (allIds ns)" by (simp add: allIds_def)
  have split: "allIds ns - dom ds = (?C - dom ds) \<union> (allIds ns - (dom ds \<union> ?C))"
    using sub by auto
  have "card (allIds ns - dom ds)
        = card (?C - dom ds) + card (allIds ns - (dom ds \<union> ?C))"
    by (subst split, rule card_Un_disjoint) (use fin in auto)
  then show ?thesis
    by (simp add: visitAll_dom visitAll_length)
qed

function bfsLoop :: "Node list \<Rightarrow> (node_id \<rightharpoonup> nat) \<Rightarrow> node_id list \<Rightarrow> (node_id \<rightharpoonup> nat)" where
  "bfsLoop ns distances [] = distances"
| "bfsLoop ns distances (currentId # queue) =
     (case getNode currentId ns of
        None \<Rightarrow> bfsLoop ns distances queue
      | Some currentNode \<Rightarrow>
          bfsLoop ns
            (fst (visitAll (the (distances currentId)) (distances, queue)
                    (connections currentNode)))
            (snd (visitAll (the (distances currentId)) (distances, queue)
                    (connections currentNode))))"
  by pat_completeness auto
termination
proof (relation "measure (\<lambda>(ns, distances, queue).
                   length queue + card (allIds ns - dom distances))")
  show "wf (measure (\<lambda>(ns, distances, queue).
              length queue + card (allIds ns - dom distances)))"
    by simp
next
  fix ns :: "Node list" and distances :: "node_id \<rightharpoonup> nat" and currentId :: node_id
    and queue :: "node_id list"
  show "((ns, distances, queue), (ns, distances, currentId # queue))
        \<in> measure (\<lambda>(ns, distances, queue). length queue + card (allIds ns - dom distances))"
    by simp
next
  fix ns :: "Node list" and distances :: "node_id \<rightharpoonup> nat" and currentId :: node_id
    and queue :: "node_id list" and currentNode :: Node
  assume "getNode currentId ns = Some currentNode"
  from bfs_measure_decreases [OF this, of "the (distances currentId)" distances queue]
  show "((ns,
          fst (visitAll (the (distances currentId)) (distances, queue) (connections currentNode)),
          snd (visitAll (the (distances currentId)) (distances, queue) (connections currentNode))),
         (ns, distances, currentId # queue))
        \<in> measure (\<lambda>(ns, distances, queue). length queue + card (allIds ns - dom distances))"
    by (simp add: case_prod_beta)
qed

definition bfs :: "Node list \<Rightarrow> node_id \<Rightarrow> (node_id \<rightharpoonup> nat)" where
  "bfs ns sid = bfsLoop ns [sid \<mapsto> 0] [sid]"

text \<open>Moving the route to a sink into the inactive tables.\<close>

definition demote :: "int \<Rightarrow> node_id \<Rightarrow> RoutingTableEntry \<Rightarrow> Node \<Rightarrow> Node" where
  "demote now sid entry node =
     node\<lparr>inactiveRoutingTables :=
            AList.update sid \<lparr>sinkId = sid, lastActiveEntry = entry, inactiveSince = now\<rparr>
              (inactiveRoutingTables node)\<rparr>"

text \<open>First pass: routes to sinks that no longer exist become inactive.\<close>

definition demoteMissing :: "int \<Rightarrow> node_id list \<Rightarrow> Node \<Rightarrow> Node" where
  "demoteMissing now sinkIds node =
     (let keysToTransition = filter (\<lambda>sid. sid \<notin> set sinkIds) (map fst (routingTable node))
      in foldl (\<lambda>n sid. (demote now sid (the (map_of (routingTable n) sid)) n)
                          \<lparr>routingTable := AList.delete sid (routingTable n)\<rparr>)
               node keysToTransition)"

text \<open>Inactive entries older than the timeout are deleted.\<close>

definition cleanupInactive :: "int \<Rightarrow> real \<Rightarrow> Node \<Rightarrow> Node" where
  "cleanupInactive now timeout node =
     (let keysToDelete =
            map fst (filter (\<lambda>kv. real_of_int (now - inactiveSince (snd kv)) > timeout)
                            (inactiveRoutingTables node))
      in node\<lparr>inactiveRoutingTables :=
               foldl (\<lambda>m key. AList.delete key m) (inactiveRoutingTables node) keysToDelete\<rparr>)"

text \<open>The next hops of a node at \<open>hopCount\<close>: the neighbors closer to the sink.\<close>

definition findNextHops :: "(node_id \<rightharpoonup> nat) \<Rightarrow> nat \<Rightarrow> node_id list \<Rightarrow> (node_id \<times> nat) list" where
  "findNextHops distances hopCount conns =
     foldl (\<lambda>hops neighborId.
              case distances neighborId of
                None \<Rightarrow> hops
              | Some neighborDistance \<Rightarrow>
                  if neighborDistance < hopCount
                  then AList.update neighborId (neighborDistance + 1) hops
                  else hops)
           [] conns"

text \<open>The update of one node for one sink, after the BFS from that sink.\<close>

definition updateRoute :: "int \<Rightarrow> node_id \<Rightarrow> (node_id \<rightharpoonup> nat) \<Rightarrow> Node \<Rightarrow> Node" where
  "updateRoute now sid distances node =
     (if nodeId node = sid then node
      else (case distances (nodeId node) of
              None \<Rightarrow>
                (case map_of (routingTable node) sid of
                   None \<Rightarrow> node
                 | Some existingEntry \<Rightarrow>
                     (demote now sid existingEntry node)
                       \<lparr>routingTable := AList.delete sid (routingTable node)\<rparr>)
            | Some hopCount \<Rightarrow>
                (let hops = findNextHops distances hopCount (connections node)
                 in if length hops > 0
                    then node\<lparr>routingTable :=
                                AList.update sid \<lparr>nextHops = hops, lastUpdate = now\<rparr>
                                  (routingTable node),
                              inactiveRoutingTables :=
                                (if map_has (inactiveRoutingTables node) sid
                                 then AList.delete sid (inactiveRoutingTables node)
                                 else inactiveRoutingTables node)\<rparr>
                    else (case map_of (routingTable node) sid of
                            None \<Rightarrow> node\<lparr>routingTable := AList.delete sid (routingTable node)\<rparr>
                          | Some existingEntry \<Rightarrow>
                              (demote now sid existingEntry node)
                                \<lparr>routingTable := AList.delete sid (routingTable node)\<rparr>))))"

text \<open>The callback of the first \<open>sinks.forEach\<close>, for the sink at index \<open>k\<close>.\<close>

definition routeSink :: "int \<Rightarrow> World \<Rightarrow> nat \<Rightarrow> World" where
  "routeSink now w k =
     (let sid = nodeId (nodes w ! k);
          distances = bfs (nodes w) sid
      in w\<lparr>nodes := map (updateRoute now sid distances) (nodes w)\<rparr>)"

text \<open>The sinks, as positions in \<open>this.nodes\<close> (the array \<open>sinks\<close> holds the objects).\<close>

definition sinkIndexes :: "Node list \<Rightarrow> nat list" where
  "sinkIndexes ns = filter (\<lambda>k. nodeType (ns ! k) = Sink) [0 ..< length ns]"

text \<open>The callback of the second \<open>sinks.forEach\<close>: a sink that another sink has a route to.\<close>

definition syncReachableSink :: "int \<Rightarrow> nat list \<Rightarrow> World \<Rightarrow> nat \<Rightarrow> World" where
  "syncReachableSink now sinks w p =
     (let someOtherSinkHasRoute =
            list_ex (\<lambda>other. nodeId (nodes w ! other) \<noteq> nodeId (nodes w ! p)
                              \<and> map_has (routingTable (nodes w ! other)) (nodeId (nodes w ! p)))
                    sinks
      in if someOtherSinkHasRoute then syncNewSinkFromExistingSinks now p w else w)"

text \<open>The table part of \<open>updateRoutingTables\<close>: first pass, cleanup, BFS per sink.\<close>

definition rebuildRoutes :: "int \<Rightarrow> World \<Rightarrow> World" where
  "rebuildRoutes now w =
     (let sinks = sinkIndexes (nodes w);
          sinkIds = set_add_all (map (\<lambda>k. nodeId (nodes w ! k)) sinks) [];
          w1 = w\<lparr>nodes := map (demoteMissing now sinkIds) (nodes w)\<rparr>;
          w2 = w1\<lparr>nodes := map (cleanupInactive now (inactiveRoutingTimeout w1)) (nodes w1)\<rparr>
      in foldl (routeSink now) w2 sinks)"

text \<open>
  \<open>updateRoutingTables\<close>; \<open>now'\<close> is the \<open>Date.now()\<close> that \<open>updateRoutingStates\<close> reads
  once the tables are built.
\<close>

definition updateRoutingTables :: "int \<Rightarrow> int \<Rightarrow> World \<Rightarrow> World" where
  "updateRoutingTables now now' w =
     (let sinks = sinkIndexes (nodes w);
          w3 = rebuildRoutes now w;
          w4 = updateRoutingStates now' w3
      in foldl (syncReachableSink now' sinks) w4 sinks)"

section \<open>Message advance (updateMessages) and the tick\<close>

text \<open>
  The callback of \<open>this.messages.forEach\<close> for index \<open>k\<close>. \<open>forEach\<close> fixes the range of
  indexes before the first call, so the messages that an arrival appends are not visited.
\<close>

definition advanceMessage :: "real \<Rightarrow> int \<Rightarrow> World \<Rightarrow> nat \<Rightarrow> World" where
  "advanceMessage deltaTime now w k =
     (let message = messages w ! k;
          oldProgress = progress message;
          message' = message\<lparr>progress := oldProgress + speed message * deltaTime\<rparr>;
          w1 = w\<lparr>messages := (messages w)[k := message']\<rparr>
      in if oldProgress < 1 \<and> progress message' \<ge> 1
         then onMessageArrival now message' w1
         else w1)"

definition advanceAll :: "real \<Rightarrow> int \<Rightarrow> World \<Rightarrow> World" where
  "advanceAll deltaTime now w =
     foldl (advanceMessage deltaTime now) w [0 ..< length (messages w)]"

definition updateMessages :: "real \<Rightarrow> int \<Rightarrow> World \<Rightarrow> World" where
  "updateMessages deltaTime now w =
     (let w1 = advanceAll deltaTime now w
      in w1\<lparr>messages := filter (\<lambda>m. progress m < 1) (messages w1)\<rparr>)"

text \<open>
  The calls of \<open>onMessageArrival\<close> that the loop makes, in call order: the loop again,
  carrying next to the world the list of the messages it has handed to
  \<open>onMessageArrival\<close> so far. The list is a ghost: the world is that of \<open>advanceAll\<close>
  (lemma \<open>advanceTrace_world\<close>).
\<close>

definition advanceTrace :: "real \<Rightarrow> int \<Rightarrow> World \<times> Message list \<Rightarrow> nat \<Rightarrow> World \<times> Message list" where
  "advanceTrace deltaTime now wt k =
     (let message = messages (fst wt) ! k;
          oldProgress = progress message;
          message' = message\<lparr>progress := oldProgress + speed message * deltaTime\<rparr>
      in (advanceMessage deltaTime now (fst wt) k,
          if oldProgress < 1 \<and> progress message' \<ge> 1 then snd wt @ [message'] else snd wt))"


text \<open>
  \<open>updateAutoGeneration\<close>; \<open>r1\<close> and \<open>r2\<close> are the two values of \<open>Math.random()\<close> (in
  \<open>[0, 1)\<close>) and \<open>newId\<close> the uuid of the triage.
\<close>

definition updateAutoGeneration :: "int \<Rightarrow> string \<Rightarrow> real \<Rightarrow> real \<Rightarrow> World \<Rightarrow> World" where
  "updateAutoGeneration now newId r1 r2 w =
     (if real_of_int (now - lastTriageGeneration w) \<ge> triageGenerationInterval w
      then (let sourceNodes = filter (\<lambda>n. nodeType n = Source \<and> length (connections n) > 0)
                                     (nodes w);
                severities = [Black, Green, Yellow, Red];
                w1 = (if length sourceNodes > 0
                      then sendMessage now newId
                             (nodeId (sourceNodes ! nat \<lfloor>r1 * real (length sourceNodes)\<rfloor>))
                             Triage (Some (severities ! nat \<lfloor>r2 * 4\<rfloor>)) w
                      else w)
            in w1\<lparr>lastTriageGeneration := now\<rparr>)
      else w)"

definition moveNodes :: "real \<Rightarrow> World \<Rightarrow> World" where
  "moveNodes deltaTime w =
     w\<lparr>nodes := map (\<lambda>n. n\<lparr>position := (fst (position n) + fst (velocity n) * deltaTime,
                                         snd (position n) + snd (velocity n) * deltaTime)\<rparr>)
                    (nodes w)\<rparr>"

text \<open>The phases of a tick before the messages advance.\<close>

definition tickBeforeAdvance :: "real \<Rightarrow> int \<Rightarrow> string \<Rightarrow> real \<Rightarrow> real \<Rightarrow> World \<Rightarrow> World" where
  "tickBeforeAdvance deltaTime now newId r1 r2 w =
     (let w1 = moveNodes deltaTime w;
          w2 = updateConnections now w1;
          w3 = updateRoutingTables now now w2
      in if isAutoGenerating w3 then updateAutoGeneration now newId r1 r2 w3 else w3)"

definition tick :: "real \<Rightarrow> int \<Rightarrow> string \<Rightarrow> real \<Rightarrow> real \<Rightarrow> World \<Rightarrow> World" where
  "tick deltaTime now newId r1 r2 w =
     notifyListeners (updateMessages deltaTime now (tickBeforeAdvance deltaTime now newId r1 r2 w))"

subsection \<open>The greedy selection, as the specification words it\<close>

text \<open>
  The current load of a peer: the in-flight messages (\<open>progress < 1\<close>) from the node to
  the peer. The marginal gain of a peer: the number of its sinks not covered so far.
\<close>

definition spec_load :: "Node \<Rightarrow> Message list \<Rightarrow> node_id \<Rightarrow> nat" where
  "spec_load node msgs p =
     length (filter (\<lambda>m. fromNodeId m = nodeId node \<and> toNodeId m = p \<and> progress m < 1) msgs)"

definition spec_gain :: "(node_id \<Rightarrow> node_id list) \<Rightarrow> node_id set \<Rightarrow> node_id \<Rightarrow> nat" where
  "spec_gain sinksOf covered p = length (filter (\<lambda>s. s \<notin> covered) (sinksOf p))"

text \<open>
  \<open>p\<close> is a greedy choice among \<open>remaining\<close>: no peer has a higher marginal gain, and no
  peer of the same gain has a lower load.
\<close>

definition greedy_best ::
  "(node_id \<Rightarrow> node_id list) \<Rightarrow> (node_id \<Rightarrow> nat) \<Rightarrow> node_id set \<Rightarrow> node_id list \<Rightarrow> node_id
   \<Rightarrow> bool" where
  "greedy_best sinksOf load covered remaining p =
     (p \<in> set remaining \<and>
      (\<forall>q \<in> set remaining.
         spec_gain sinksOf covered q < spec_gain sinksOf covered p
         \<or> (spec_gain sinksOf covered q = spec_gain sinksOf covered p \<and> load p \<le> load q)))"

text \<open>
  A sequence of picks is greedy: each pick is a greedy choice among what remains, then its
  coverage is absorbed and it leaves the remaining peers.
\<close>

fun greedy_picks ::
  "(node_id \<Rightarrow> node_id list) \<Rightarrow> (node_id \<Rightarrow> nat) \<Rightarrow> node_id set \<Rightarrow> node_id list
   \<Rightarrow> node_id list \<Rightarrow> bool" where
  "greedy_picks sinksOf load covered remaining [] = True"
| "greedy_picks sinksOf load covered remaining (p # ps) =
     (greedy_best sinksOf load covered remaining p
      \<and> greedy_picks sinksOf load (covered \<union> set (sinksOf p)) (removeAll p remaining) ps)"

subsection \<open>Well-formed links and the invariant of the BFS loop\<close>

text \<open>
  What \<open>updateConnections\<close> and \<open>removeNode\<close> maintain: node ids are unique, every
  neighbor id names a node, and links are symmetric.
\<close>

definition wfLinks :: "Node list \<Rightarrow> bool" where
  "wfLinks ns =
     (distinct (map nodeId ns)
      \<and> (\<forall>a \<in> set ns. \<forall>p \<in> set (connections a).
            \<exists>b \<in> set ns. nodeId b = p \<and> nodeId a \<in> set (connections b)))"

text \<open>
  The invariant of the BFS loop: the sink is at 0; queued ids have a distance; the queue is
  sorted by distance and no distance exceeds the head's by more than 1; every node that
  has left the queue has all its neighbors at a distance, at most one more than its own;
  every id but the sink has a node one step closer that lists it as a neighbor.
\<close>

definition bfsInv :: "Node list \<Rightarrow> node_id \<Rightarrow> (node_id \<rightharpoonup> nat) \<Rightarrow> node_id list \<Rightarrow> bool" where
  "bfsInv ns sid d q =
     (d sid = Some 0
      \<and> set q \<subseteq> dom d
      \<and> sorted (map (\<lambda>v. the (d v)) q)
      \<and> (q \<noteq> [] \<longrightarrow> (\<forall>v \<in> dom d. the (d v) \<le> the (d (hd q)) + 1))
      \<and> (\<forall>v cn. v \<in> dom d \<longrightarrow> v \<notin> set q \<longrightarrow> getNode v ns = Some cn \<longrightarrow>
            (\<forall>p \<in> set (connections cn). p \<in> dom d \<and> the (d p) \<le> the (d v) + 1))
      \<and> (\<forall>v \<in> dom d. v \<noteq> sid \<longrightarrow>
            (\<exists>a. getNode (nodeId a) ns = Some a \<and> v \<in> set (connections a)
                 \<and> d (nodeId a) = Some (the (d v) - 1) \<and> 0 < the (d v))))"

text \<open>Two node lists with the same ids and the same neighbor sets, position by position.\<close>

definition sameGraph :: "Node list \<Rightarrow> Node list \<Rightarrow> bool" where
  "sameGraph ns ns' = (map nodeId ns = map nodeId ns' \<and> map connections ns = map connections ns')"

subsection \<open>Endpoints of a message, as the specification words them\<close>

text \<open>
  \<open>linked\<close>: the from node and the to node of the message are nodes and each is in the
  other's neighbor set. \<open>viaRoute\<close>: the to node is a next hop of some entry of the
  sender's routing table.
\<close>

definition linked :: "Node list \<Rightarrow> Message \<Rightarrow> bool" where
  "linked ns m =
     (\<exists>a \<in> set ns. \<exists>b \<in> set ns.
        nodeId a = fromNodeId m \<and> nodeId b = toNodeId m
        \<and> toNodeId m \<in> set (connections a) \<and> fromNodeId m \<in> set (connections b))"

definition viaRoute :: "Node list \<Rightarrow> Message \<Rightarrow> bool" where
  "viaRoute ns m =
     (\<exists>a \<in> set ns. nodeId a = fromNodeId m
        \<and> (\<exists>se \<in> set (routingTable a). toNodeId m \<in> fst ` set (nextHops (snd se))))"

text \<open>
  The routing tables are maps (no sink twice) and no node has a route to itself; every next
  hop of every route is a neighbor of the node that holds the route.
\<close>

definition wfTables :: "Node list \<Rightarrow> bool" where
  "wfTables ns =
     (\<forall>n \<in> set ns. distinct (map fst (routingTable n)) \<and> nodeId n \<notin> fst ` set (routingTable n))"

definition routesSound :: "Node list \<Rightarrow> bool" where
  "routesSound ns =
     (\<forall>n \<in> set ns. \<forall>se \<in> set (routingTable n).
        fst ` set (nextHops (snd se)) \<subseteq> set (connections n))"

subsection \<open>Advancing a message, as the specification words it\<close>

text \<open>\<open>progress += speed * dt\<close>, and the crossing from below 1 to 1 or above.\<close>

definition advanced :: "real \<Rightarrow> Message \<Rightarrow> Message" where
  "advanced dt m = m\<lparr>progress := progress m + speed m * dt\<rparr>"

definition crosses :: "real \<Rightarrow> Message \<Rightarrow> bool" where
  "crosses dt m = (progress m < 1 \<and> progress (advanced dt m) \<ge> 1)"

subsection \<open>The table of the mode classifier, as the specification words it\<close>

text \<open>
  The rows of the table, first match wins, over the sets of routes rather than the
  counters of the code. \<open>expired\<close> is the test that makes a route expired.
\<close>

definition spec_mode_table ::
  "(RoutingTableEntry \<Rightarrow> bool) \<Rightarrow> Node \<Rightarrow> RoutingMode \<times> FloodingReason option" where
  "spec_mode_table expired node =
     (let entries = map snd (routingTable node);
          anyActive = (\<exists>e \<in> set entries. \<not> expired e);
          anyExpired = (\<exists>e \<in> set entries. expired e);
          anyInactive = (inactiveRoutingTables node \<noteq> [])
      in if connections node = [] then (NoConnections, Some ReasonNoConnections)
         else if nodeType node = Sink \<and> \<not> anyActive \<and> \<not> anyExpired \<and> \<not> anyInactive
           then (Intelligent, None)
         else if anyInactive then (Inactive, Some HasInactiveRoutes)
         else if anyActive then (Intelligent, None)
         else if anyExpired then (Flooding, Some RoutesExpired)
         else (Flooding, Some NoRoutes))"

text \<open>Expired as the specification says it: strictly older than five minutes.\<close>

definition spec_expired_strict :: "int \<Rightarrow> RoutingTableEntry \<Rightarrow> bool" where
  "spec_expired_strict now e = (now - lastUpdate e > 5 * 60 * 1000)"


subsection \<open>Predicates and invariants of the proofs\<close>

text \<open>
  The state of the scan for the best peer is the entry of a greedy choice among the peers
  scanned so far.
\<close>

definition is_best ::
  "(node_id \<Rightarrow> node_id list) \<Rightarrow> (node_id \<Rightarrow> nat) \<Rightarrow> node_id set \<Rightarrow> node_id list
   \<Rightarrow> node_id option \<times> int \<times> enat \<Rightarrow> bool" where
  "is_best sinksOf load covered xs b =
     (\<exists>p. b = (Some p, int (spec_gain sinksOf covered p), enat (load p))
          \<and> greedy_best sinksOf load covered xs p)"

text \<open>From \<open>w\<close> to \<open>w'\<close> the message list only grew, by messages that satisfy \<open>P\<close>.\<close>

definition appends :: "(Message \<Rightarrow> bool) \<Rightarrow> World \<Rightarrow> World \<Rightarrow> bool" where
  "appends P w w' = (\<exists>new. messages w' = messages w @ new \<and> (\<forall>m \<in> set new. P m))"

text \<open>A triage message of severity red that has not moved yet.\<close>

definition redTriage :: "Message \<Rightarrow> bool" where
  "redTriage m = (msgType m = Triage \<and> triageSeverity m = Some Red \<and> progress m = 0)"

text \<open>
  The invariant of the pair loop of \<open>updateConnections\<close>: the ids are \<open>ids\<close>, neighbors are
  among them, and the links are symmetric.
\<close>

definition symInv :: "node_id list \<Rightarrow> Node list \<Rightarrow> bool" where
  "symInv ids ns =
     (map nodeId ns = ids
      \<and> (\<forall>a < length ids. set (connections (ns ! a)) \<subseteq> set ids)
      \<and> (\<forall>a < length ids. \<forall>b < length ids.
            (ids ! b \<in> set (connections (ns ! a))) = (ids ! a \<in> set (connections (ns ! b)))))"

text \<open>The receiver is in the connections of the sender.\<close>

definition linkOf :: "Node list \<Rightarrow> Message \<Rightarrow> bool" where
  "linkOf ns m = (\<exists>a \<in> set ns. nodeId a = fromNodeId m \<and> toNodeId m \<in> set (connections a))"

text \<open>The node ids and the routing tables are those of \<open>ns'\<close>, position by position.\<close>

definition sameRoutes :: "Node list \<Rightarrow> Node list \<Rightarrow> bool" where
  "sameRoutes ns ns' =
     (map nodeId ns = map nodeId ns' \<and> map routingTable ns = map routingTable ns')"

text \<open>
  The invariant of the per-sink loop of \<open>updateRoutingTables\<close> at a node: the table is a
  map, has no route to the node itself, lists sinks of \<open>K\<close> only, and the routes to the
  sinks of \<open>S\<close> (those already done) go through neighbors.
\<close>

definition tableInv :: "node_id set \<Rightarrow> node_id set \<Rightarrow> Node \<Rightarrow> bool" where
  "tableInv S K n =
     (distinct (map fst (routingTable n))
      \<and> nodeId n \<notin> dom (map_of (routingTable n))
      \<and> dom (map_of (routingTable n)) \<subseteq> K
      \<and> (\<forall>s e. s \<in> S \<longrightarrow> map_of (routingTable n) s = Some e
             \<longrightarrow> fst ` set (nextHops e) \<subseteq> set (connections n)))"


text \<open>What a node contributes to the links and to the routes.\<close>

definition net :: "Node \<Rightarrow> node_id \<times> node_id list \<times> (node_id \<times> RoutingTableEntry) list" where
  "net n = (nodeId n, connections n, routingTable n)"

text \<open>A message between linked nodes that has not moved yet.\<close>

definition fresh :: "Node list \<Rightarrow> Message \<Rightarrow> bool" where
  "fresh ns m = (linked ns m \<and> progress m = 0)"

subsection \<open>Example states\<close>

definition initialWorld :: World where
  "initialWorld =
     \<lparr>nodes = [], messages = [], connectionRadius = 2, inactiveRoutingTimeout = 1000,
      isAutoGenerating = False, triageGenerationInterval = 3000, lastTriageGeneration = 0,
      notifications = 0\<rparr>"

text \<open>A freshly created node (utils/nodeUtils.ts, \<open>createNode\<close>), given its id.\<close>

definition createNode :: "node_id \<Rightarrow> real \<Rightarrow> real \<Rightarrow> NodeType \<Rightarrow> real \<Rightarrow> int \<Rightarrow> Node" where
  "createNode i x y t r now =
     \<lparr>nodeId = i, nodeType = t, position = (x, y), velocity = (0, 0),
      nodeConnectionRadius = r, connections = [], lastMessageReceivedAt = None,
      triageStore = [], triageQueue = [], sentTriagesToSinks = [],
      routingTable = [], inactiveRoutingTables = [],
      routingState = \<lparr>mode = NoConnections, activeRoutes = 0, expiredRoutes = 0,
                       inactiveRoutes = 0, floodingReason = Some ReasonNoConnections,
                       lastStateChange = now\<rparr>\<rparr>"

text \<open>
  Source \<open>A\<close> next to sink \<open>S\<close>, with the route to \<open>S\<close> written by a routing pass at
  time 0.
\<close>

definition relayA :: Node where
  "relayA = (createNode ''A'' 0 0 Source 2 0)
     \<lparr>connections := [''S''],
      routingTable := [(''S'', \<lparr>nextHops = [(''S'', 1)], lastUpdate = 0\<rparr>)],
      routingState := \<lparr>mode = Intelligent, activeRoutes = 1, expiredRoutes = 0,
                       inactiveRoutes = 0, floodingReason = None, lastStateChange = 0\<rparr>\<rparr>"

definition sinkS :: Node where
  "sinkS = (createNode ''S'' 1 0 Sink 2 0)
     \<lparr>connections := [''A''],
      routingState := \<lparr>mode = Intelligent, activeRoutes = 0, expiredRoutes = 0,
                       inactiveRoutes = 0, floodingReason = None, lastStateChange = 0\<rparr>\<rparr>"

definition relayWorld :: World where
  "relayWorld = initialWorld\<lparr>nodes := [relayA, sinkS]\<rparr>"

text \<open>An isolated source \<open>A\<close>.\<close>

definition lonelyA :: Node where
  "lonelyA = createNode ''A'' 0 0 Source 2 0"

definition lonelyWorld :: World where
  "lonelyWorld = initialWorld\<lparr>nodes := [lonelyA]\<rparr>"

text \<open>
  Source \<open>B\<close> with neighbors \<open>A\<close> and \<open>C\<close>, no routes (flooding), that has seen triage
  \<open>t1\<close>; and a triage message carrying \<open>t1\<close> from \<open>A\<close> to \<open>B\<close>.
\<close>

definition floodB :: Node where
  "floodB = (createNode ''B'' 0 0 Source 2 0)
     \<lparr>connections := [''A'', ''C''], triageStore := [''t1''],
      routingState := \<lparr>mode = Flooding, activeRoutes = 0, expiredRoutes = 0,
                       inactiveRoutes = 0, floodingReason = Some NoRoutes, lastStateChange = 0\<rparr>\<rparr>"

definition floodWorld :: World where
  "floodWorld = initialWorld\<lparr>nodes := [floodB]\<rparr>"

definition triageT1 :: Message where
  "triageT1 = newMessage 0 ''A'' Triage (Some ''t1'') (Some Green) ''B''"

text \<open>
  The diamond: source \<open>A\<close> with two equal-cost next hops \<open>B\<close> and \<open>C\<close> towards sink
  \<open>D\<close>.
\<close>

definition diamondA :: Node where
  "diamondA = (createNode ''A'' 0 0 Source 2 0)
     \<lparr>connections := [''B'', ''C''],
      routingTable := [(''D'', \<lparr>nextHops = [(''B'', 2), (''C'', 2)], lastUpdate = 0\<rparr>)],
      routingState := \<lparr>mode = Intelligent, activeRoutes = 1, expiredRoutes = 0,
                       inactiveRoutes = 0, floodingReason = None, lastStateChange = 0\<rparr>\<rparr>"

definition diamondWorld :: World where
  "diamondWorld = initialWorld\<lparr>nodes := [diamondA]\<rparr>"

text \<open>
  Source \<open>A\<close> has seen triage \<open>t1\<close> and has just come into range of sink \<open>S\<close>, which has
  not seen it.
\<close>

definition replayA :: Node where
  "replayA = (createNode ''A'' 0 0 Source 2 0)\<lparr>connections := [''S''], triageStore := [''t1'']\<rparr>"

definition replayS :: Node where
  "replayS = (createNode ''S'' 1 0 Sink 2 0)\<lparr>connections := [''A'']\<rparr>"

definition replayWorld :: World where
  "replayWorld = initialWorld\<lparr>nodes := [replayA, replayS]\<rparr>"

text \<open>
  Triage \<open>t2\<close> half way from \<open>A\<close> to the flooding node \<open>B\<close>, which has not seen it.
\<close>

definition triageT2 :: Message where
  "triageT2 = (newMessage 0 ''A'' Triage (Some ''t2'') (Some Green) ''B'')\<lparr>progress := 1 / 2\<rparr>"

definition hopWorld :: World where
  "hopWorld = floodWorld\<lparr>messages := [triageT2]\<rparr>"

text \<open>Scenario E1, the linear relay: \<open>A\<close>, \<open>B\<close> and the sink \<open>C\<close> in a line.\<close>

definition lineWorld :: World where
  "lineWorld = initialWorld\<lparr>nodes :=
     [(createNode ''A'' 0 0 Source 2 0)\<lparr>connections := [''B'']\<rparr>,
      (createNode ''B'' 2 0 Source 2 0)\<lparr>connections := [''A'', ''C'']\<rparr>,
      (createNode ''C'' 4 0 Sink 2 0)\<lparr>connections := [''B'']\<rparr>]\<rparr>"

text \<open>Scenario E1 after a routing pass at time 10.\<close>

definition routedWorld :: World where
  "routedWorld = updateRoutingTables 10 10 lineWorld"

text \<open>
  Then the sink \<open>C\<close> is removed; no routing pass has run since, so \<open>B\<close> still lists
  \<open>C\<close> as its next hop.
\<close>

definition staleWorld :: World where
  "staleWorld = removeNode ''C'' routedWorld"

text \<open>The same line without a sink, after a routing pass: every node floods.\<close>

definition floodedWorld :: World where
  "floodedWorld = updateRoutingTables 10 10 (initialWorld\<lparr>nodes :=
     [(createNode ''A'' 0 0 Source 2 0)\<lparr>connections := [''B'']\<rparr>,
      (createNode ''B'' 2 0 Source 2 0)\<lparr>connections := [''A'', ''C'']\<rparr>,
      (createNode ''C'' 4 0 Source 2 0)\<lparr>connections := [''B'']\<rparr>]\<rparr>)"

text \<open>
  Two sinks next to each other; \<open>S1\<close> has seen triage \<open>t1\<close>. Then the tables of a
  routing pass at time 10, before the replay to reachable sinks.
\<close>

definition sinkPair :: World where
  "sinkPair = initialWorld\<lparr>nodes :=
     [(createNode ''S1'' 0 0 Sink 2 0)\<lparr>connections := [''S2''], triageStore := [''t1'']\<rparr>,
      (createNode ''S2'' 2 0 Sink 2 0)\<lparr>connections := [''S1'']\<rparr>]\<rparr>"

definition sinkPairRoutes :: World where
  "sinkPairRoutes = rebuildRoutes 10 sinkPair"

section \<open>Properties of the setters\<close>

text \<open>
  C6, as stated, fails: \<open>setInactiveRoutingTimeout\<close> stores 0 when it is given 0, below the
  documented lower bound of 1000 ms.
\<close>

theorem setter_does_not_clamp_counterexample:
  "\<not> (1000 \<le> inactiveRoutingTimeout (setInactiveRoutingTimeout 0 initialWorld)
      \<and> inactiveRoutingTimeout (setInactiveRoutingTimeout 0 initialWorld) \<le> 300000)"
  by (simp add: setInactiveRoutingTimeout_def notifyListeners_def)

text \<open>
  C6, amended: both setters store their argument as it is given and notify once; the range
  1 s to 5 min is enforced by the sidebar's slider handler, which clamps before it calls
  \<open>setInactiveRoutingTimeout\<close>, so a value set through the handler lies in 1000 to 300000 ms.
  The generation interval has no clamp on either path.
\<close>

theorem setters_store_argument_handler_clamps:
  "inactiveRoutingTimeout (setInactiveRoutingTimeout t w) = t
   \<and> notifications (setInactiveRoutingTimeout t w) = Suc (notifications w)
   \<and> triageGenerationInterval (setTriageGenerationInterval t w) = t
   \<and> notifications (setTriageGenerationInterval t w) = Suc (notifications w)
   \<and> triageGenerationInterval (handleTriageIntervalChange s w) = s * 1000
   \<and> 1000 \<le> inactiveRoutingTimeout (handleInactiveTimeoutChange s w)
   \<and> inactiveRoutingTimeout (handleInactiveTimeoutChange s w) \<le> 300000"
  by (simp add: setInactiveRoutingTimeout_def setTriageGenerationInterval_def
      handleInactiveTimeoutChange_def handleTriageIntervalChange_def notifyListeners_def)

section \<open>Properties of node removal\<close>

lemma getNode_None_iff: "getNode i ns = None \<longleftrightarrow> i \<notin> nodeId ` set ns"
  by (auto simp: getNode_def find_None_iff)

text \<open>
  C7: \<open>removeNode\<close> with an id that names no node (and that no neighbor set mentions, as in
  every state the model builds) changes neither the nodes nor anything else of the model,
  but it does call \<open>notifyListeners()\<close>: the notification count goes up by one. The guarded
  sibling \<open>updateNodeVelocity\<close> returns without notifying.
\<close>

theorem removeNode_unknown_id_still_notifies:
  assumes "i \<notin> nodeId ` set (nodes w)"
    and "\<forall>n \<in> set (nodes w). i \<notin> set (connections n)"
  shows "removeNode i w = w\<lparr>notifications := Suc (notifications w)\<rparr>
         \<and> updateNodeVelocity i vx vy w = w"
proof -
  have m: "map (\<lambda>n. n\<lparr>connections := removeAll i (connections n)\<rparr>) (nodes w) = nodes w"
    using assms(2) by (intro map_idI) simp
  have f: "filter (\<lambda>n. nodeId n \<noteq> i) (nodes w) = nodes w"
    using assms(1) by (intro filter_True) auto
  have g: "getNode i (nodes w) = None"
    using assms(1) by (simp add: getNode_None_iff)
  show ?thesis
    by (simp add: removeNode_def notifyListeners_def updateNodeVelocity_def m f g)
qed

theorem removeNode_unknown_id_still_notifies_witness:
  "removeNode ''ghost'' relayWorld = relayWorld\<lparr>notifications := 1\<rparr>
   \<and> notifications relayWorld = 0
   \<and> updateNodeVelocity ''ghost'' 1 1 relayWorld = relayWorld"
proof -
  have a: "''ghost'' \<notin> nodeId ` set (nodes relayWorld)"
    by (simp add: relayWorld_def relayA_def sinkS_def createNode_def initialWorld_def)
  have b: "\<forall>n \<in> set (nodes relayWorld). ''ghost'' \<notin> set (connections n)"
    by (simp add: relayWorld_def relayA_def sinkS_def createNode_def initialWorld_def)
  have c: "notifications relayWorld = 0"
    by (simp add: relayWorld_def initialWorld_def)
  show ?thesis
    using removeNode_unknown_id_still_notifies [OF a b, of 1 1] c by simp
qed

section \<open>Properties of the mode classifier\<close>





lemma updateRoutingState_frame:
  "routingTable (updateRoutingState now n) = routingTable n"
  "inactiveRoutingTables (updateRoutingState now n) = inactiveRoutingTables n"
  "connections (updateRoutingState now n) = connections n"
  "nodeType (updateRoutingState now n) = nodeType n"
  "nodeId (updateRoutingState now n) = nodeId n"
  unfolding updateRoutingState_def Let_def by (simp_all split: prod.splits)



text \<open>
  The classifier on its own, at a route that is exactly five minutes old: the code counts
  it as expired (only a route younger than \<open>ROUTE_TIMEOUT\<close> is active), where the strict
  test counts it as active. Within a routing pass every route carries the timestamp of
  that pass, so the two tests differ only if the clock advances by exactly five minutes
  between the two readings of the pass.
\<close>

lemma classifier_at_five_minutes:
  "mode (routingState (updateRoutingState 300000 relayA)) = Flooding
   \<and> floodingReason (routingState (updateRoutingState 300000 relayA)) = Some RoutesExpired
   \<and> spec_mode_table (spec_expired_strict 300000) (updateRoutingState 300000 relayA)
       = (Intelligent, None)"
  by (simp add: updateRoutingState_def countRoutes_def decideMode_def ROUTE_TIMEOUT_def
      relayA_def createNode_def spec_mode_table_def spec_expired_strict_def)

section \<open>Helper facts: sets, nodes by id\<close>

lemma length_updateFirst [simp]: "length (updateFirst i f ns) = length ns"
  by (induction ns) auto

lemma getNode_updateFirst:
  assumes "\<And>n. nodeId (f n) = nodeId n"
  shows "getNode i (updateFirst j f ns)
         = (if i = j then map_option f (getNode i ns) else getNode i ns)"
  using assms by (induction ns) (auto simp: getNode_def)

lemma map_updateFirst_frame:
  assumes "\<And>n. g (f n) = g n"
  shows "map g (updateFirst i f ns) = map g ns"
  using assms by (induction ns) auto

lemma updateFirst_comp:
  assumes "\<And>n. nodeId (f n) = nodeId n"
  shows "updateFirst i g (updateFirst i f ns) = updateFirst i (g \<circ> f) ns"
  using assms by (induction ns) auto

lemma set_set_add [simp]: "set (set_add x xs) = insert x (set xs)"
  by (auto simp: set_add_def)

lemma distinct_set_add [simp]: "distinct (set_add x xs) = distinct xs"
  by (auto simp: set_add_def)

lemma set_add_all_Nil [simp]: "set_add_all [] xs = xs"
  by (simp add: set_add_all_def)

lemma set_add_all_Cons [simp]: "set_add_all (y # ys) xs = set_add_all ys (set_add y xs)"
  by (simp add: set_add_all_def)

lemma set_set_add_all [simp]: "set (set_add_all ys xs) = set xs \<union> set ys"
  by (induction ys arbitrary: xs) auto

lemma distinct_set_add_all [simp]: "distinct (set_add_all ys xs) = distinct xs"
  by (induction ys arbitrary: xs) auto

lemma set_add_all_fresh:
  "distinct ys \<Longrightarrow> set ys \<inter> set xs = {} \<Longrightarrow> set_add_all ys xs = xs @ ys"
  by (induction ys arbitrary: xs) (auto simp: set_add_def)

lemma marginalGain_foldl:
  "foldl (\<lambda>gain s. if s \<notin> set cs then gain + 1 else gain) g sinks
   = g + length (filter (\<lambda>s. s \<notin> set cs) sinks)"
  by (induction sinks arbitrary: g) auto

lemma marginalGain_eq: "marginalGain cs sinks = spec_gain (\<lambda>_. sinks) (set cs) p"
  by (simp add: marginalGain_def spec_gain_def marginalGain_foldl)

lemma getLoad_foldl:
  "foldl (\<lambda>count m. if fromNodeId m = i \<and> toNodeId m = p \<and> progress m < 1
                        then count + 1 else count) c msgs
   = c + length (filter (\<lambda>m. fromNodeId m = i \<and> toNodeId m = p \<and> progress m < 1) msgs)"
  by (induction msgs arbitrary: c) auto

lemma getLoad_eq: "getLoad node msgs = spec_load node msgs"
  by (rule ext) (simp add: getLoad_def spec_load_def getLoad_foldl)

lemma considerPeer_eq:
  "considerPeer cov load cs best p =
     (let g = int (spec_gain (\<lambda>p. the (map_of cov p)) (set cs) p); l = enat (load p)
      in if g > fst (snd best) \<or> (g = fst (snd best) \<and> l < snd (snd best))
         then (Some p, g, l) else best)"
  by (simp add: considerPeer_def Let_def marginalGain_def spec_gain_def marginalGain_foldl)

lemma considerPeer_first:
  "is_best (\<lambda>p. the (map_of cov p)) load (set cs) [x]
     (considerPeer cov load cs (None, - 1, \<infinity>) x)"
  by (simp add: considerPeer_eq Let_def is_best_def greedy_best_def)

lemma considerPeer_step:
  assumes "is_best (\<lambda>p. the (map_of cov p)) load (set cs) xs b"
  shows "is_best (\<lambda>p. the (map_of cov p)) load (set cs) (xs @ [x]) (considerPeer cov load cs b x)"
proof -
  let ?S = "\<lambda>p. the (map_of cov p)"
  let ?G = "spec_gain ?S (set cs)"
  from assms obtain p0 where b: "b = (Some p0, int (?G p0), enat (load p0))"
    and gb: "greedy_best ?S load (set cs) xs p0"
    unfolding is_best_def by blast
  have old: "?G q < ?G p0 \<or> (?G q = ?G p0 \<and> load p0 \<le> load q)" if "q \<in> set xs" for q
    using gb that unfolding greedy_best_def by blast
  show ?thesis
  proof (cases "?G x > ?G p0 \<or> (?G x = ?G p0 \<and> load x < load p0)")
    case True
    then have r: "considerPeer cov load cs b x = (Some x, int (?G x), enat (load x))"
      unfolding considerPeer_eq Let_def b by auto
    have "?G q < ?G x \<or> (?G q = ?G x \<and> load x \<le> load q)" if "q \<in> set (xs @ [x])" for q
    proof (cases "q = x")
      case True
      then show ?thesis by simp
    next
      case False
      with that have "q \<in> set xs" by simp
      from old [OF this] \<open>?G x > ?G p0 \<or> (?G x = ?G p0 \<and> load x < load p0)\<close>
      show ?thesis by linarith
    qed
    then have "greedy_best ?S load (set cs) (xs @ [x]) x"
      unfolding greedy_best_def by simp
    with r show ?thesis unfolding is_best_def by blast
  next
    case False
    then have r: "considerPeer cov load cs b x = b"
      unfolding considerPeer_eq Let_def b by auto
    have "?G q < ?G p0 \<or> (?G q = ?G p0 \<and> load p0 \<le> load q)" if "q \<in> set (xs @ [x])" for q
    proof (cases "q = x")
      case True
      with False show ?thesis by auto
    next
      case False
      with that have "q \<in> set xs" by simp
      from old [OF this] show ?thesis .
    qed
    moreover have "p0 \<in> set (xs @ [x])" using gb unfolding greedy_best_def by simp
    ultimately have "greedy_best ?S load (set cs) (xs @ [x]) p0"
      unfolding greedy_best_def by simp
    with r b show ?thesis unfolding is_best_def by blast
  qed
qed

lemma foldl_considerPeer_best:
  "xs \<noteq> [] \<Longrightarrow> is_best (\<lambda>p. the (map_of cov p)) load (set cs) xs
      (foldl (considerPeer cov load cs) (None, - 1, \<infinity>) xs)"
proof (induction xs rule: rev_induct)
  case Nil
  then show ?case by simp
next
  case (snoc x xs)
  show ?case
  proof (cases "xs = []")
    case True
    then show ?thesis using considerPeer_first [of cov load cs x] by simp
  next
    case False
    from considerPeer_step [OF snoc.IH [OF False]] show ?thesis by simp
  qed
qed

lemma pickBest_best:
  "remaining \<noteq> [] \<Longrightarrow> \<exists>p. fst (pickBest cov load cs remaining) = Some p
     \<and> greedy_best (\<lambda>p. the (map_of cov p)) load (set cs) remaining p"
  using foldl_considerPeer_best [of remaining cov load cs]
  by (auto simp: pickBest_def is_best_def)

lemma greedyLoop_spec:
  "distinct remaining \<Longrightarrow> set selected \<inter> set remaining = {} \<Longrightarrow>
   \<exists>picks. greedyLoop cap cov load selected cs remaining = selected @ picks
     \<and> length picks = min (cap - length selected) (length remaining)
     \<and> greedy_picks (\<lambda>p. the (map_of cov p)) load (set cs) remaining picks"
proof (induction cap cov load selected cs remaining rule: greedyLoop.induct)
  case (1 cap cov load selected cs remaining)
  show ?case
  proof (cases "length selected < cap \<and> length remaining > 0")
    case False
    then show ?thesis by (subst greedyLoop.simps) auto
  next
    case True
    then have ne: "remaining \<noteq> []" by auto
    from pickBest_best [OF ne] obtain p where
      p: "fst (pickBest cov load cs remaining) = Some p"
      and best: "greedy_best (\<lambda>p. the (map_of cov p)) load (set cs) remaining p"
      by blast
    have pin: "p \<in> set remaining" using best by (simp add: greedy_best_def)
    have d: "distinct (removeAll p remaining)" using "1.prems"(1) by (simp add: distinct_removeAll)
    have dj: "set (set_add p selected) \<inter> set (removeAll p remaining) = {}"
      using "1.prems"(2) by auto
    from "1.IH" [OF True p d dj] obtain picks where
      g: "greedyLoop cap cov load (set_add p selected) (set_add_all (the (map_of cov p)) cs)
            (removeAll p remaining) = set_add p selected @ picks"
      and l: "length picks = min (cap - length (set_add p selected)) (length (removeAll p remaining))"
      and gp: "greedy_picks (\<lambda>p. the (map_of cov p)) load
                 (set (set_add_all (the (map_of cov p)) cs)) (removeAll p remaining) picks"
      by blast
    have pns: "p \<notin> set selected" using "1.prems"(2) pin by auto
    then have sa: "set_add p selected = selected @ [p]" by (simp add: set_add_def)
    have lr: "length (removeAll p remaining) = length remaining - 1"
      using "1.prems"(1) pin by (simp add: distinct_remove1_removeAll [symmetric] length_remove1)
    have eq: "greedyLoop cap cov load selected cs remaining = selected @ (p # picks)"
      using g [unfolded sa] by (subst greedyLoop.simps) (simp add: True p sa ne)
    have len: "length (p # picks) = min (cap - length selected) (length remaining)"
    proof -
      have a: "length picks = min (cap - (length selected + 1)) (length remaining - 1)"
        using l lr by (simp add: sa)
      have b: "length selected < cap" and c: "0 < length remaining"
        using True by auto
      have d: "length (p # picks) = length picks + 1" by simp
      from a b c d show ?thesis by arith
    qed
    have gps: "greedy_picks (\<lambda>p. the (map_of cov p)) load (set cs) remaining (p # picks)"
      using best gp by simp
    from eq len gps show ?thesis by blast
  qed
qed

section \<open>Properties of the target selector\<close>

lemma addCoverage_distinct:
  "distinct (map fst cov) \<Longrightarrow> distinct (map fst (addCoverage s p cov))"
  by (simp add: addCoverage_def distinct_update split: option.splits)

lemma addCoverage_keys: "fst ` set (addCoverage s p cov) = insert p (fst ` set cov)"
  by (simp add: addCoverage_def dom_update split: option.splits)

lemma foldl_hops_distinct:
  "distinct (map fst cov) \<Longrightarrow>
   distinct (map fst (foldl (\<lambda>c hop. if Some (fst hop) = ex then c
                                        else addCoverage s (fst hop) c) cov hops))"
  by (induction hops arbitrary: cov) (auto simp: addCoverage_distinct)

lemma foldl_hops_keys:
  "fst ` set (foldl (\<lambda>c hop. if Some (fst hop) = ex then c
                                else addCoverage s (fst hop) c) cov hops)
   = fst ` set cov \<union> {p \<in> fst ` set hops. Some p \<noteq> ex}"
  by (induction hops arbitrary: cov) (auto simp: addCoverage_keys)

lemma coverEntry_distinct:
  "distinct (map fst cov) \<Longrightarrow> distinct (map fst (coverEntry ex now cov se))"
  by (simp add: coverEntry_def Let_def foldl_hops_distinct)

lemma coverEntry_keys:
  "fst ` set (coverEntry ex now cov se)
   = fst ` set cov \<union> (if now - lastUpdate (snd se) < ROUTE_TIMEOUT
                         then {p \<in> fst ` set (nextHops (snd se)). Some p \<noteq> ex} else {})"
  by (simp add: coverEntry_def Let_def foldl_hops_keys)

lemma foldl_coverEntry_distinct:
  "distinct (map fst cov) \<Longrightarrow> distinct (map fst (foldl (coverEntry ex now) cov rt))"
  by (induction rt arbitrary: cov) (auto simp: coverEntry_distinct)

lemma foldl_coverEntry_keys:
  "fst ` set (foldl (coverEntry ex now) cov rt)
   = fst ` set cov \<union> {p. \<exists>se \<in> set rt. now - lastUpdate (snd se) < ROUTE_TIMEOUT
                              \<and> p \<in> fst ` set (nextHops (snd se)) \<and> Some p \<noteq> ex}"
proof (induction rt arbitrary: cov)
  case Nil
  then show ?case by simp
next
  case (Cons se rt)
  show ?case
    unfolding foldl_Cons Cons.IH coverEntry_keys by auto
qed

lemma neighborCoverage_distinct: "distinct (map fst (neighborCoverage node ex now))"
  by (simp add: neighborCoverage_def foldl_coverEntry_distinct)

lemma neighborCoverage_keys:
  "set (map fst (neighborCoverage node ex now))
   = {p. \<exists>se \<in> set (routingTable node). now - lastUpdate (snd se) < ROUTE_TIMEOUT
            \<and> p \<in> fst ` set (nextHops (snd se)) \<and> Some p \<noteq> ex}"
  by (simp add: neighborCoverage_def foldl_coverEntry_keys)

lemma getMultiRouteCap_pos: "1 \<le> getMultiRouteCap mt sev"
  by (induction mt sev rule: getMultiRouteCap.induct) auto

lemma greedyLoop_distinct:
  "distinct selected \<Longrightarrow> distinct (greedyLoop cap cov load selected cs remaining)"
proof (induction cap cov load selected cs remaining rule: greedyLoop.induct)
  case (1 cap cov load selected cs remaining)
  show ?case
  proof (cases "length selected < cap \<and> length remaining > 0")
    case False
    then show ?thesis using "1.prems" by (subst greedyLoop.simps) auto
  next
    case True
    show ?thesis
    proof (cases "fst (pickBest cov load cs remaining)")
      case None
      then show ?thesis using "1.prems" True by (subst greedyLoop.simps) auto
    next
      case (Some p)
      have "distinct (set_add p selected)" using "1.prems" by simp
      from "1.IH" [OF True Some this] show ?thesis
        using True Some by (subst greedyLoop.simps) auto
    qed
  qed
qed

lemma fallbackPick_nonempty: "selected \<noteq> [] \<Longrightarrow> fallbackPick load cands selected = selected"
  by (simp add: fallbackPick_def)

lemma select_intelligent_small:
  assumes "mode (routingState node) = Intelligent"
    and "length (neighborCoverage node ex now) \<le> getMultiRouteCap mt sev"
  shows "selectRoutingTargets node ex mt sev msgs now = map fst (neighborCoverage node ex now)"
  using assms neighborCoverage_distinct [of node ex now]
  by (simp add: selectRoutingTargets_def Let_def set_add_all_fresh)

lemma select_intelligent_large:
  assumes "mode (routingState node) = Intelligent"
    and "getMultiRouteCap mt sev < length (neighborCoverage node ex now)"
  shows "length (selectRoutingTargets node ex mt sev msgs now) = getMultiRouteCap mt sev
       \<and> distinct (selectRoutingTargets node ex mt sev msgs now)
       \<and> greedy_picks (\<lambda>p. the (map_of (neighborCoverage node ex now) p)) (spec_load node msgs) {}
            (map fst (neighborCoverage node ex now)) (selectRoutingTargets node ex mt sev msgs now)"
proof -
  let ?cov = "neighborCoverage node ex now"
  let ?cands = "map fst ?cov"
  let ?cap = "getMultiRouteCap mt sev"
  have d: "distinct ?cands" by (rule neighborCoverage_distinct)
  have r: "set_add_all ?cands [] = ?cands" using d by (simp add: set_add_all_fresh)
  from greedyLoop_spec [of ?cands "[]" ?cap ?cov "getLoad node msgs" "[]"] d
  obtain picks where g: "greedyLoop ?cap ?cov (getLoad node msgs) [] [] ?cands = picks"
    and l: "length picks = min ?cap (length ?cands)"
    and gp: "greedy_picks (\<lambda>p. the (map_of ?cov p)) (getLoad node msgs) {} ?cands picks"
    by auto
  have dp: "distinct picks"
    using greedyLoop_distinct [of "[]" ?cap ?cov "getLoad node msgs" "[]" ?cands] g by simp
  have lc: "length picks = ?cap" using l assms(2) by simp
  have ne: "picks \<noteq> []" using lc getMultiRouteCap_pos [of mt sev] by auto
  have f: "fallbackPick (getLoad node msgs) ?cands picks = picks"
    using ne by (rule fallbackPick_nonempty)
  have cne: "?cov \<noteq> []" using assms(2) by auto
  have t: "selectRoutingTargets node ex mt sev msgs now = picks"
    using assms dp cne by (simp add: selectRoutingTargets_def Let_def r g f set_add_all_fresh)
  show ?thesis using lc dp gp unfolding t by (simp add: getLoad_eq)
qed


lemma foldl_sendToPeer_messages:
  "messages (foldl (sendToPeer now f mt tid sev sinks) w ts)
   = messages w @ map (newMessage now f mt tid sev) ts"
  by (induction ts arbitrary: w) (auto simp: sendToPeer_def Let_def)

lemma foldl_forwardToPeer_messages:
  "messages (foldl (forwardToPeer now nid m sinks) w ts)
   = messages w @ map (forwardedMessage now nid m) ts"
  by (induction ts arbitrary: w) (auto simp: forwardToPeer_def Let_def)

lemma selectRoutingTargets_cong:
  assumes "routingState a = routingState b" "routingTable a = routingTable b"
    "connections a = connections b" "nodeId a = nodeId b"
  shows "selectRoutingTargets a ex mt sev msgs now = selectRoutingTargets b ex mt sev msgs now"
proof -
  have "neighborCoverage a ex now = neighborCoverage b ex now"
    using assms by (simp add: neighborCoverage_def)
  moreover have "getLoad a msgs = getLoad b msgs"
    using assms by (intro ext) (simp add: getLoad_def)
  ultimately show ?thesis using assms by (simp add: selectRoutingTargets_def Let_def)
qed

lemma sendMessage_messages:
  "\<exists>ts. messages (sendMessage now newId fromId mt sevArg w)
        = messages w @ map (newMessage now fromId mt (if mt = Triage then Some newId else None)
                              (sendSeverity mt sevArg)) ts
      \<and> (ts = [] \<or> (\<exists>n. getNode fromId (nodes w) = Some n
            \<and> ts = selectRoutingTargets n (Some fromId) (Some mt) (sendSeverity mt sevArg)
                     (messages w) now))"
proof (cases "getNode fromId (nodes w)")
  case None
  then show ?thesis by (simp add: sendMessage_def)
next
  case (Some n)
  let ?f = "\<lambda>n. n\<lparr>triageStore := set_add newId (triageStore n)\<rparr>"
  have c: "selectRoutingTargets (?f n) ex m s ms t = selectRoutingTargets n ex m s ms t" for ex m s ms t
    by (rule selectRoutingTargets_cong) simp_all
  show ?thesis
    using Some
    by (auto simp: sendMessage_def Let_def notifyListeners_def getNode_updateFirst
        foldl_sendToPeer_messages sendSeverity_def c)
qed

lemma forwardBlock_messages:
  assumes "getNode (toNodeId m) (nodes w') = Some n'"
    and "messages w' = msgs"
    and "selectRoutingTargets n' (Some (fromNodeId m)) (Some (msgType m)) (triageSeverity m) msgs now
         = selectRoutingTargets n (Some (fromNodeId m)) (Some (msgType m)) (triageSeverity m) msgs now"
  shows "\<exists>ts. messages (forwardBlock now m w')
        = msgs @ map (forwardedMessage now (toNodeId m) m) ts
      \<and> (ts = [] \<or> ts = selectRoutingTargets n (Some (fromNodeId m)) (Some (msgType m))
                     (triageSeverity m) msgs now)"
proof -
  have "nodeId n' = toNodeId m"
    using assms(1) by (auto simp: getNode_def dest: find_Some_iff [THEN iffD1])
  then show ?thesis
    using assms
    by (auto simp: forwardBlock_def Let_def notifyListeners_def foldl_forwardToPeer_messages)
qed

lemma onMessageArrival_messages:
  "\<exists>ts. messages (onMessageArrival now m w)
        = messages w @ map (forwardedMessage now (toNodeId m) m) ts
      \<and> (ts = [] \<or> (\<exists>n. getNode (toNodeId m) (nodes w) = Some n
            \<and> ts = selectRoutingTargets n (Some (fromNodeId m)) (Some (msgType m))
                     (triageSeverity m) (messages w) now))"
proof (cases "getNode (toNodeId m) (nodes w)")
  case None
  then show ?thesis by (simp add: onMessageArrival_def)
next
  case (Some n)
  let ?f1 = "\<lambda>n. n\<lparr>lastMessageReceivedAt := Some now\<rparr>"
  let ?f2 = "\<lambda>n. n\<lparr>triageStore := set_add (the (triageId m)) (triageStore n)\<rparr>"
  let ?w1 = "w\<lparr>nodes := updateFirst (toNodeId m) ?f1 (nodes w)\<rparr>"
  let ?w2 = "w\<lparr>nodes := updateFirst (toNodeId m) ?f2 (updateFirst (toNodeId m) ?f1 (nodes w))\<rparr>"
  let ?goal = "\<lambda>w'. \<exists>ts. messages w'
        = messages w @ map (forwardedMessage now (toNodeId m) m) ts
      \<and> (ts = [] \<or> ts = selectRoutingTargets n (Some (fromNodeId m)) (Some (msgType m))
                     (triageSeverity m) (messages w) now)"
  have g1: "getNode (toNodeId m) (nodes ?w1) = Some (?f1 n)"
    using Some by (simp add: getNode_updateFirst)
  have g2: "getNode (toNodeId m) (nodes ?w2) = Some (?f2 (?f1 n))"
    using Some by (simp add: getNode_updateFirst)
  have b1: "?goal (forwardBlock now m ?w1)"
    by (rule forwardBlock_messages [OF g1]) (simp, rule selectRoutingTargets_cong, simp_all)
  have b2: "?goal (forwardBlock now m ?w2)"
    by (rule forwardBlock_messages [OF g2]) (simp, rule selectRoutingTargets_cong, simp_all)
  have same: "?goal w'" if "messages w' = messages w" for w'
    using that by (intro exI [of _ "[]"]) simp
  have "?goal (onMessageArrival now m w)"
  proof (cases "msgType m = Triage \<and> truthy (triageId m)")
    case False
    then have "onMessageArrival now m w = forwardBlock now m ?w1"
      using Some by (auto simp: onMessageArrival_def Let_def)
    with b1 show ?thesis by simp
  next
    case True
    show ?thesis
    proof (cases "(mode (routingState n) = Flooding \<or> mode (routingState n) = Inactive)
                  \<and> the (triageId m) \<in> set (triageStore n)")
      case True
      with \<open>msgType m = Triage \<and> truthy (triageId m)\<close>
      have "onMessageArrival now m w = ?w1"
        using Some by (auto simp: onMessageArrival_def Let_def)
      then show ?thesis using same [of ?w1] by simp
    next
      case False
      show ?thesis
      proof (cases "length (connections n) = 0")
        case True
        with False \<open>msgType m = Triage \<and> truthy (triageId m)\<close>
        have "messages (onMessageArrival now m w) = messages w"
          using Some by (auto simp: onMessageArrival_def Let_def notifyListeners_def)
        then show ?thesis by (rule same)
      next
        case nc: False
        with False \<open>msgType m = Triage \<and> truthy (triageId m)\<close>
        have "onMessageArrival now m w = forwardBlock now m ?w2"
          using Some by (auto simp: onMessageArrival_def Let_def)
        with b2 show ?thesis by simp
      qed
    qed
  qed
  with Some show ?thesis by auto
qed


lemma diamond_coverage:
  "neighborCoverage diamondA (Some ''A'') 1 = [(''B'', [''D'']), (''C'', [''D''])]"
  by (simp add: neighborCoverage_def coverEntry_def diamondA_def createNode_def ROUTE_TIMEOUT_def
      addCoverage_def set_add_def Let_def)

text \<open>Scenario E2: green goes to one of the two next hops, red to both.\<close>

lemma diamond_green_targets:
  "selectRoutingTargets diamondA (Some ''A'') (Some Triage) (Some Green) [] 1 = [''B'']"
  by (simp add: selectRoutingTargets_def diamond_coverage Let_def greedyLoop.simps pickBest_def
      considerPeer_def marginalGain_def getLoad_def fallbackPick_def set_add_def)
    (simp add: diamondA_def)

lemma diamond_red_targets:
  "selectRoutingTargets diamondA (Some ''A'') (Some Triage) (Some Red) [] 1 = [''B'', ''C'']"
  by (simp add: selectRoutingTargets_def diamond_coverage Let_def set_add_def)
    (simp add: diamondA_def)


section \<open>Properties of sending and of arrival\<close>

text \<open>
  C8: a triage send from a node without neighbors. The triage id that \<open>uuidv4()\<close> returned
  (a uuid, so not the empty string) is in the sender's \<open>triageStore\<close> afterwards, the entry
  (triage id, severity, now) is appended to its \<open>triageQueue\<close> (the severity is the given
  one, red when none is given), nothing else of the node changes, and the list of in-flight
  messages is unchanged.
\<close>

theorem isolated_triage_send_is_queued:
  assumes "getNode fromId (nodes w) = Some n"
    and "connections n = []"
    and "newId \<noteq> []"
  shows "messages (sendMessage now newId fromId Triage sev w) = messages w
       \<and> getNode fromId (nodes (sendMessage now newId fromId Triage sev w))
         = Some (n\<lparr>triageStore := set_add newId (triageStore n),
                   triageQueue := triageQueue n @
                     [\<lparr>qTriageId = newId,
                       qSeverity = (case sev of Some sv \<Rightarrow> sv | None \<Rightarrow> Red),
                       queuedAt = now\<rparr>]\<rparr>)
       \<and> newId \<in> set (triageStore
                        (the (getNode fromId (nodes (sendMessage now newId fromId Triage sev w)))))"
  using assms
  by (simp add: sendMessage_def Let_def truthy_def notifyListeners_def getNode_updateFirst
      updateFirst_comp sendSeverity_def)

theorem isolated_triage_send_is_queued_witness:
  "getNode ''A'' (nodes lonelyWorld) = Some lonelyA \<and> connections lonelyA = []
   \<and> messages (sendMessage 7 ''t1'' ''A'' Triage (Some Yellow) lonelyWorld) = []
   \<and> getNode ''A'' (nodes (sendMessage 7 ''t1'' ''A'' Triage (Some Yellow) lonelyWorld))
     = Some (lonelyA\<lparr>triageStore := [''t1''],
                    triageQueue := [\<lparr>qTriageId = ''t1'', qSeverity = Yellow, queuedAt = 7\<rparr>]\<rparr>)"
proof -
  have a: "getNode ''A'' (nodes lonelyWorld) = Some lonelyA"
    by (simp add: lonelyWorld_def lonelyA_def getNode_def createNode_def)
  have b: "connections lonelyA = []"
    by (simp add: lonelyA_def createNode_def)
  have c: "''t1'' \<noteq> []" by simp
  have d: "messages lonelyWorld = []" "triageStore lonelyA = []" "triageQueue lonelyA = []"
    by (simp_all add: lonelyWorld_def initialWorld_def lonelyA_def createNode_def)
  show ?thesis
    using isolated_triage_send_is_queued [OF a b c, of 7 "Some Yellow"] a b
    by (simp add: d set_add_def)
qed

text \<open>
  C4: a triage message (its triage id a uuid, so not the empty string) arrives at a node in
  flooding or inactive mode whose \<open>triageStore\<close> already holds the triage id. No message is
  emitted, no node's \<open>triageStore\<close>, \<open>triageQueue\<close> or \<open>sentTriagesToSinks\<close> changes, and no
  listener is notified.
\<close>

theorem duplicate_triage_dropped_under_flooding:
  assumes "getNode (toNodeId m) (nodes w) = Some n"
    and "mode (routingState n) = Flooding \<or> mode (routingState n) = Inactive"
    and "msgType m = Triage"
    and "triageId m = Some tid"
    and "tid \<noteq> []"
    and "tid \<in> set (triageStore n)"
  shows "messages (onMessageArrival now m w) = messages w
       \<and> map triageStore (nodes (onMessageArrival now m w)) = map triageStore (nodes w)
       \<and> map triageQueue (nodes (onMessageArrival now m w)) = map triageQueue (nodes w)
       \<and> map sentTriagesToSinks (nodes (onMessageArrival now m w))
         = map sentTriagesToSinks (nodes w)
       \<and> notifications (onMessageArrival now m w) = notifications w"
  using assms
  by (auto simp add: onMessageArrival_def Let_def truthy_def map_updateFirst_frame)

theorem duplicate_triage_dropped_under_flooding_witness:
  "getNode (toNodeId triageT1) (nodes floodWorld) = Some floodB
   \<and> mode (routingState floodB) = Flooding
   \<and> ''t1'' \<in> set (triageStore floodB)
   \<and> messages (onMessageArrival 9 triageT1 floodWorld) = []
   \<and> map triageStore (nodes (onMessageArrival 9 triageT1 floodWorld)) = [[''t1'']]
   \<and> map triageQueue (nodes (onMessageArrival 9 triageT1 floodWorld)) = [[]]"
proof -
  have a: "getNode (toNodeId triageT1) (nodes floodWorld) = Some floodB"
    by (simp add: floodWorld_def floodB_def getNode_def createNode_def triageT1_def newMessage_def)
  have b: "mode (routingState floodB) = Flooding \<or> mode (routingState floodB) = Inactive"
    by (simp add: floodB_def)
  have c: "msgType triageT1 = Triage" "triageId triageT1 = Some ''t1''"
    by (simp_all add: triageT1_def newMessage_def)
  have d: "''t1'' \<noteq> []" by simp
  have e: "''t1'' \<in> set (triageStore floodB)"
    by (simp add: floodB_def)
  have f: "messages floodWorld = []" "map triageStore (nodes floodWorld) = [[''t1'']]"
    "map triageQueue (nodes floodWorld) = [[]]" "mode (routingState floodB) = Flooding"
    by (simp_all add: floodWorld_def initialWorld_def floodB_def createNode_def)
  show ?thesis
    using duplicate_triage_dropped_under_flooding [OF a b c d e, of 9] a e f by simp
qed

section \<open>Properties of replay and of the queue flush\<close>

lemma appends_refl: "messages w' = messages w \<Longrightarrow> appends P w w'"
  by (simp add: appends_def)

lemma appends_trans: "appends P w w' \<Longrightarrow> appends P w' w'' \<Longrightarrow> appends P w w''"
  unfolding appends_def by (metis append.assoc set_append UnE)

lemma appends_push:
  "messages w' = messages w @ new \<Longrightarrow> (\<And>m. m \<in> set new \<Longrightarrow> P m) \<Longrightarrow> appends P w w'"
  by (auto simp: appends_def)


lemma appends_notify: "appends P w w' \<Longrightarrow> appends P w (notifyListeners w')"
  by (simp add: appends_def notifyListeners_def)

lemma redTriage_new [simp]: "redTriage (newMessage now f Triage tid (Some Red) t)"
  by (simp add: redTriage_def newMessage_def)









lemma sendQueuedTriage_messages:
  "messages (sendQueuedTriage now i tid sev w)
   = messages w @ (if tid \<in> set (triageStore (nodes w ! i))
                   then map (newMessage now (nodeId (nodes w ! i)) Triage (Some tid) (Some sev))
                            (set_add_all (connections (nodes w ! i)) [])
                   else [])"
  by (simp add: sendQueuedTriage_def Let_def notifyListeners_def)

lemma sendQueuedTriage_nodes: "nodes (sendQueuedTriage now i tid sev w) = nodes w"
  by (simp add: sendQueuedTriage_def Let_def notifyListeners_def)

lemma foldl_sendQueued_nodes:
  "nodes (foldl (\<lambda>w' q. sendQueuedTriage now i (qTriageId q) (qSeverity q) w') w qs) = nodes w"
  by (induction qs arbitrary: w) (simp_all add: sendQueuedTriage_nodes)




lemma replay_example:
  "messages (syncNewLink 5 [] 0 replayWorld ''S'')
   = [newMessage 5 ''A'' Triage (Some ''t1'') (Some Red) ''S'']"
  by (simp add: syncNewLink_def replayWorld_def initialWorld_def replayA_def replayS_def
      createNode_def getNode_def replayToSink_def Let_def notifyListeners_def)


section \<open>Properties of the message advance\<close>

lemma advanceTrace_fst: "fst (advanceTrace dt now wt k) = advanceMessage dt now (fst wt) k"
  by (simp add: advanceTrace_def Let_def)


lemma forwarded_progress [simp]: "progress (forwardedMessage now nid m t) = 0"
  by (simp add: forwardedMessage_def)

lemma onMessageArrival_appends:
  "\<exists>em. messages (onMessageArrival now m w) = messages w @ em \<and> (\<forall>x \<in> set em. progress x = 0)"
  using onMessageArrival_messages [of now m w] by auto




lemma hop_example:
  "messages (updateMessages (3 / 5) 9 hopWorld)
   = [forwardedMessage 9 ''B'' (advanced (3 / 5) triageT2) ''C'']"
  by (simp add: updateMessages_def advanceAll_def advanceMessage_def hopWorld_def floodWorld_def
      initialWorld_def triageT2_def newMessage_def floodB_def createNode_def Let_def
      onMessageArrival_def getNode_def truthy_def forwardBlock_def selectRoutingTargets_def
      set_add_def sinkIdsFor_def forwardToPeer_def notifyListeners_def forwardedMessage_def
      advanced_def defaultSpeed_def)


section \<open>Properties of the routing-table builder\<close>

lemma visitAll_lookup:
  "fst (visitAll dc (d, q) cs) v
   = (case d v of Some x \<Rightarrow> Some x | None \<Rightarrow> if v \<in> set cs then Some (dc + 1) else None)"
  by (induction cs arbitrary: d q) (auto simp: visitNeighbor_def split: option.splits)

lemma visitAll_queue:
  "\<exists>new. snd (visitAll dc (d, q) cs) = q @ new \<and> set new = set cs - dom d"
proof (induction cs arbitrary: d q)
  case Nil
  then show ?case by simp
next
  case (Cons c cs)
  show ?case
  proof (cases "d c")
    case None
    from Cons.IH [of "d(c \<mapsto> dc + 1)" "q @ [c]"] obtain new where
      "snd (visitAll dc (d(c \<mapsto> dc + 1), q @ [c]) cs) = (q @ [c]) @ new"
      "set new = set cs - dom (d(c \<mapsto> dc + 1))" by blast
    then show ?thesis
      using None by (intro exI [of _ "c # new"]) (auto simp: visitNeighbor_def)
  next
    case (Some a)
    from Cons.IH [of d q] obtain new where
      "snd (visitAll dc (d, q) cs) = q @ new" "set new = set cs - dom d" by blast
    then show ?thesis
      using Some by (intro exI [of _ new]) (auto simp: visitNeighbor_def)
  qed
qed

lemma bfsInv_init: "bfsInv ns sid [sid \<mapsto> 0] [sid]"
  by (auto simp: bfsInv_def)

lemma bfsInv_skip:
  assumes "bfsInv ns sid d (c # q)" and "getNode c ns = None"
  shows "bfsInv ns sid d q"
proof -
  have s: "sorted (map (\<lambda>v. the (d v)) (c # q))" using assms(1) by (simp add: bfsInv_def)
  have b: "\<forall>v \<in> dom d. the (d v) \<le> the (d c) + 1" using assms(1) by (simp add: bfsInv_def)
  have h: "the (d v) \<le> the (d (hd q)) + 1" if "q \<noteq> []" "v \<in> dom d" for v
  proof -
    from that(1) have "hd q \<in> set q" by simp
    with s have x: "the (d c) \<le> the (d (hd q))" by auto
    from b that(2) have "the (d v) \<le> the (d c) + 1" by blast
    with x show ?thesis by linarith
  qed
  have cl: "\<forall>v cn. v \<in> dom d \<longrightarrow> v \<notin> set q \<longrightarrow> getNode v ns = Some cn \<longrightarrow>
            (\<forall>p \<in> set (connections cn). p \<in> dom d \<and> the (d p) \<le> the (d v) + 1)"
  proof (intro allI impI)
    fix v cn
    assume v: "v \<in> dom d" "v \<notin> set q" "getNode v ns = Some cn"
    with assms(2) have "v \<noteq> c" by auto
    with v have "v \<notin> set (c # q)" by simp
    with assms(1) v show "\<forall>p \<in> set (connections cn). p \<in> dom d \<and> the (d p) \<le> the (d v) + 1"
      unfolding bfsInv_def by blast
  qed
  show ?thesis
    unfolding bfsInv_def
    using assms(1) s h cl by (auto simp: bfsInv_def)
qed

lemma bfsInv_step:
  assumes inv: "bfsInv ns sid d (c # q)" and g: "getNode c ns = Some cn"
  shows "bfsInv ns sid (fst (visitAll (the (d c)) (d, q) (connections cn)))
           (snd (visitAll (the (d c)) (d, q) (connections cn)))"
proof -
  let ?dc = "the (d c)"
  let ?cs = "connections cn"
  let ?D = "fst (visitAll ?dc (d, q) ?cs)"
  let ?Q = "snd (visitAll ?dc (d, q) ?cs)"
  have i1: "d sid = Some 0" using inv by (simp add: bfsInv_def)
  have i2: "set (c # q) \<subseteq> dom d" using inv by (simp add: bfsInv_def)
  have i3: "sorted (map (\<lambda>v. the (d v)) (c # q))" using inv by (simp add: bfsInv_def)
  have i4: "\<And>v. v \<in> dom d \<Longrightarrow> the (d v) \<le> ?dc + 1" using inv by (simp add: bfsInv_def)
  have i5: "\<And>v n p. v \<in> dom d \<Longrightarrow> v \<notin> set (c # q) \<Longrightarrow> getNode v ns = Some n
              \<Longrightarrow> p \<in> set (connections n) \<Longrightarrow> p \<in> dom d \<and> the (d p) \<le> the (d v) + 1"
    using inv unfolding bfsInv_def by blast
  have i6: "\<And>v. v \<in> dom d \<Longrightarrow> v \<noteq> sid \<Longrightarrow>
            (\<exists>a. getNode (nodeId a) ns = Some a \<and> v \<in> set (connections a)
                 \<and> d (nodeId a) = Some (the (d v) - 1) \<and> 0 < the (d v))"
    using inv unfolding bfsInv_def by blast
  have cid: "nodeId cn = c" using getNode_Some_mem [OF g] by simp
  have cdom: "c \<in> dom d" using i2 by simp
  have old: "?D v = d v" if "v \<in> dom d" for v
    using that by (auto simp: visitAll_lookup)
  have new: "?D v = Some (?dc + 1)" if "v \<notin> dom d" "v \<in> set ?cs" for v
    using that by (auto simp: visitAll_lookup split: option.splits)
  have domD: "dom ?D = dom d \<union> set ?cs" by (rule visitAll_dom)
  from visitAll_queue [of ?dc d q ?cs] obtain nw where
    Q: "?Q = q @ nw" and nw: "set nw = set ?cs - dom d" by blast
  have val: "the (?D v) \<le> ?dc + 1" if "v \<in> dom ?D" for v
  proof (cases "v \<in> dom d")
    case True
    then show ?thesis using i4 [OF True] old [OF True] by simp
  next
    case False
    with that domD have "v \<in> set ?cs" by auto
    from new [OF False this] show ?thesis by simp
  qed
  have c1: "?D sid = Some 0" using i1 old [of sid] by auto
  have c2: "set ?Q \<subseteq> dom ?D" using i2 Q nw domD by auto
  have c3: "sorted (map (\<lambda>v. the (?D v)) ?Q)"
  proof -
    have a: "map (\<lambda>v. the (?D v)) q = map (\<lambda>v. the (d v)) q"
    proof (rule map_cong [OF refl])
      fix x assume "x \<in> set q"
      then have "x \<in> dom d" using i2 by auto
      from old [OF this] show "the (?D x) = the (d x)" by simp
    qed
    have b: "map (\<lambda>v. the (?D v)) nw = map (\<lambda>v. ?dc + 1) nw"
    proof (rule map_cong [OF refl])
      fix x assume "x \<in> set nw"
      then have "x \<notin> dom d" "x \<in> set ?cs" using nw by auto
      from new [OF this] show "the (?D x) = ?dc + 1" by simp
    qed
    have sq: "sorted (map (\<lambda>v. the (d v)) q)" using i3 by simp
    have sn: "sorted (map (\<lambda>v. ?dc + 1) nw)" by (induction nw) auto
    have cross: "\<forall>x \<in> set q. the (d x) \<le> ?dc + 1" using i2 i4 by auto
    show ?thesis
      unfolding Q map_append a b using sq sn cross by (auto simp: sorted_append)
  qed
  have ge: "?dc \<le> the (?D x)" if "x \<in> set ?Q" for x
  proof (cases "x \<in> set q")
    case True
    then have "?dc \<le> the (d x)" using i3 by auto
    moreover have "x \<in> dom d" using True i2 by auto
    ultimately show ?thesis using old by simp
  next
    case False
    with that Q nw have "x \<notin> dom d" "x \<in> set ?cs" by auto
    from new [OF this] show ?thesis by simp
  qed
  have c4: "?Q \<noteq> [] \<longrightarrow> (\<forall>v \<in> dom ?D. the (?D v) \<le> the (?D (hd ?Q)) + 1)"
  proof (intro impI ballI)
    fix v assume "?Q \<noteq> []" and v: "v \<in> dom ?D"
    then have "hd ?Q \<in> set ?Q" by simp
    from ge [OF this] val [OF v] show "the (?D v) \<le> the (?D (hd ?Q)) + 1" by linarith
  qed
  have c5: "\<forall>v n. v \<in> dom ?D \<longrightarrow> v \<notin> set ?Q \<longrightarrow> getNode v ns = Some n \<longrightarrow>
            (\<forall>p \<in> set (connections n). p \<in> dom ?D \<and> the (?D p) \<le> the (?D v) + 1)"
  proof (intro allI impI ballI)
    fix v n p
    assume v: "v \<in> dom ?D" "v \<notin> set ?Q" "getNode v ns = Some n" and p: "p \<in> set (connections n)"
    have vd: "v \<in> dom d"
    proof (rule ccontr)
      assume "v \<notin> dom d"
      with v(1) domD have "v \<in> set ?cs - dom d" by auto
      with nw Q v(2) show False by auto
    qed
    show "p \<in> dom ?D \<and> the (?D p) \<le> the (?D v) + 1"
    proof (cases "v = c")
      case True
      with v(3) g have "n = cn" by simp
      with p have pc: "p \<in> set ?cs" by simp
      then have "p \<in> dom ?D" using domD by auto
      moreover have "the (?D p) \<le> ?dc + 1" using val [OF \<open>p \<in> dom ?D\<close>] .
      moreover have "the (?D v) = ?dc" using True old [OF cdom] by simp
      ultimately show ?thesis by simp
    next
      case False
      with v(2) Q have "v \<notin> set (c # q)" by auto
      from i5 [OF vd this v(3) p] have "p \<in> dom d" "the (d p) \<le> the (d v) + 1" by auto
      then show ?thesis using old [of p] old [OF vd] domD by auto
    qed
  qed
  have c6: "\<forall>v \<in> dom ?D. v \<noteq> sid \<longrightarrow>
            (\<exists>a. getNode (nodeId a) ns = Some a \<and> v \<in> set (connections a)
                 \<and> ?D (nodeId a) = Some (the (?D v) - 1) \<and> 0 < the (?D v))"
  proof (intro ballI impI)
    fix v assume v: "v \<in> dom ?D" "v \<noteq> sid"
    show "\<exists>a. getNode (nodeId a) ns = Some a \<and> v \<in> set (connections a)
                 \<and> ?D (nodeId a) = Some (the (?D v) - 1) \<and> 0 < the (?D v)"
    proof (cases "v \<in> dom d")
      case True
      from i6 [OF True v(2)] obtain a where
        a: "getNode (nodeId a) ns = Some a" "v \<in> set (connections a)"
           "d (nodeId a) = Some (the (d v) - 1)" "0 < the (d v)" by blast
      from a(3) have "nodeId a \<in> dom d" by auto
      from old [OF this] old [OF True] a show ?thesis by (intro exI [of _ a]) simp
    next
      case False
      with v(1) domD have vc: "v \<in> set ?cs" by auto
      have "?D c = Some ?dc" using old [OF cdom] cdom by auto
      with new [OF False vc] g cid vc show ?thesis by (intro exI [of _ cn]) simp
    qed
  qed
  show ?thesis
    unfolding bfsInv_def using c1 c2 c3 c4 c5 c6 by blast
qed

lemma bfsLoop_inv: "bfsInv ns sid d q \<Longrightarrow> bfsInv ns sid (bfsLoop ns d q) []"
proof (induction ns d q rule: bfsLoop.induct)
  case (1 ns distances)
  then show ?case by simp
next
  case (2 ns distances currentId queue)
  show ?case
  proof (cases "getNode currentId ns")
    case None
    from "2.IH"(1) [OF None bfsInv_skip [OF "2.prems" None]] show ?thesis
      using None by simp
  next
    case (Some cn)
    from "2.IH"(2) [OF Some bfsInv_step [OF "2.prems" Some]] show ?thesis
      using Some by simp
  qed
qed

lemma bfs_inv: "bfsInv ns sid (bfs ns sid) []"
  unfolding bfs_def by (rule bfsLoop_inv [OF bfsInv_init])

lemma getNode_distinct:
  "distinct (map nodeId ns) \<Longrightarrow> n \<in> set ns \<Longrightarrow> getNode (nodeId n) ns = Some n"
  by (induction ns) (auto simp: getNode_def)

lemma bfs_closed:
  assumes "getNode v ns = Some n" and "bfs ns sid v = Some h" and "p \<in> set (connections n)"
  shows "\<exists>dp. bfs ns sid p = Some dp \<and> dp \<le> h + 1"
proof -
  have "v \<in> dom (bfs ns sid)" using assms(2) by auto
  with bfs_inv [of ns sid] assms(1,3)
  have "p \<in> dom (bfs ns sid) \<and> the (bfs ns sid p) \<le> the (bfs ns sid v) + 1"
    unfolding bfsInv_def by simp
  then show ?thesis using assms(2) by auto
qed

lemma bfs_neighbor_bound:
  assumes wf: "wfLinks ns" and n: "n \<in> set ns" and h: "bfs ns sid (nodeId n) = Some h"
    and p: "p \<in> set (connections n)"
  shows "\<exists>dp. bfs ns sid p = Some dp \<and> dp \<le> h + 1 \<and> h \<le> dp + 1"
proof -
  have d: "distinct (map nodeId ns)" using wf by (simp add: wfLinks_def)
  from bfs_closed [OF getNode_distinct [OF d n] h p] obtain dp where
    dp: "bfs ns sid p = Some dp" "dp \<le> h + 1" by blast
  from wf n p obtain b where b: "b \<in> set ns" "nodeId b = p" "nodeId n \<in> set (connections b)"
    unfolding wfLinks_def by blast
  have gb: "getNode p ns = Some b" using getNode_distinct [OF d b(1)] b(2) by simp
  from bfs_closed [OF gb dp(1) b(3)] h have "h \<le> dp + 1" by auto
  with dp show ?thesis by blast
qed

lemma bfs_parent:
  assumes wf: "wfLinks ns" and n: "n \<in> set ns" and ne: "nodeId n \<noteq> sid"
    and h: "bfs ns sid (nodeId n) = Some h"
  shows "0 < h \<and> (\<exists>p \<in> set (connections n). bfs ns sid p = Some (h - 1))"
proof -
  have d: "distinct (map nodeId ns)" using wf by (simp add: wfLinks_def)
  have "nodeId n \<in> dom (bfs ns sid)" using h by auto
  with bfs_inv [of ns sid] ne obtain a where
    a: "getNode (nodeId a) ns = Some a" "nodeId n \<in> set (connections a)"
       "bfs ns sid (nodeId a) = Some (the (bfs ns sid (nodeId n)) - 1)"
       "0 < the (bfs ns sid (nodeId n))"
    unfolding bfsInv_def by blast
  have ain: "a \<in> set ns" using getNode_Some_mem [OF a(1)] by simp
  from wf ain a(2) obtain b where
    b: "b \<in> set ns" "nodeId b = nodeId n" "nodeId a \<in> set (connections b)"
    unfolding wfLinks_def by blast
  have x: "getNode (nodeId n) ns = Some b"
    using getNode_distinct [OF d b(1)] unfolding b(2) .
  have "b = n"
    using x getNode_distinct [OF d n] by (simp only: option.inject)
  with b(3) a(3,4) h show ?thesis by auto
qed

lemma bfs_sink: "bfs ns sid sid = Some 0"
  using bfs_inv [of ns sid] by (simp add: bfsInv_def)

lemma findNextHops_foldl_map_of:
  "map_of (foldl (\<lambda>hops neighborId.
              case d neighborId of
                None \<Rightarrow> hops
              | Some neighborDistance \<Rightarrow>
                  if neighborDistance < h
                  then AList.update neighborId (neighborDistance + 1) hops
                  else hops) acc cs) p
   = (if p \<in> set cs \<and> (\<exists>dp. d p = Some dp \<and> dp < h) then Some (the (d p) + 1)
      else map_of acc p)"
  by (induction cs arbitrary: acc) (auto simp: update_conv' split: option.splits)

lemma findNextHops_foldl_distinct:
  "distinct (map fst acc) \<Longrightarrow>
   distinct (map fst (foldl (\<lambda>hops neighborId.
              case d neighborId of
                None \<Rightarrow> hops
              | Some neighborDistance \<Rightarrow>
                  if neighborDistance < h
                  then AList.update neighborId (neighborDistance + 1) hops
                  else hops) acc cs))"
  by (induction cs arbitrary: acc) (auto simp: distinct_update split: option.splits)

lemma findNextHops_map_of:
  "map_of (findNextHops d h cs) p
   = (if p \<in> set cs \<and> (\<exists>dp. d p = Some dp \<and> dp < h) then Some (the (d p) + 1) else None)"
  by (simp add: findNextHops_def findNextHops_foldl_map_of)

lemma findNextHops_distinct: "distinct (map fst (findNextHops d h cs))"
  by (simp add: findNextHops_def findNextHops_foldl_distinct)

lemma findNextHops_keys:
  "fst ` set (findNextHops d h cs) = {p \<in> set cs. \<exists>dp. d p = Some dp \<and> dp < h}"
proof -
  have "fst ` set (findNextHops d h cs) = dom (map_of (findNextHops d h cs))"
    by (simp add: dom_map_of_conv_image_fst)
  also have "\<dots> = {p \<in> set cs. \<exists>dp. d p = Some dp \<and> dp < h}"
    by (auto simp: findNextHops_map_of dom_def)
  finally show ?thesis .
qed

text \<open>On a well-formed graph, closer means exactly one closer.\<close>

lemma nextHops_exact:
  assumes wf: "wfLinks ns" and n: "n \<in> set ns" and h: "bfs ns sid (nodeId n) = Some h"
  shows "{p \<in> set (connections n). \<exists>dp. bfs ns sid p = Some dp \<and> dp < h}
         = {p \<in> set (connections n). bfs ns sid p = Some (h - 1) \<and> 0 < h}"
proof -
  have key: "dp = h - 1 \<and> 0 < h"
    if "p \<in> set (connections n)" "bfs ns sid p = Some dp" "dp < h" for p dp
    using bfs_neighbor_bound [OF wf n h that(1)] that(2,3) by auto
  show ?thesis
  proof (rule Collect_cong, rule conj_cong [OF refl])
    fix p assume p: "p \<in> set (connections n)"
    show "(\<exists>dp. bfs ns sid p = Some dp \<and> dp < h) = (bfs ns sid p = Some (h - 1) \<and> 0 < h)"
    proof
      assume "\<exists>dp. bfs ns sid p = Some dp \<and> dp < h"
      then obtain dp where dp: "bfs ns sid p = Some dp" "dp < h" by blast
      from key [OF p dp] dp(1) show "bfs ns sid p = Some (h - 1) \<and> 0 < h" by simp
    next
      assume "bfs ns sid p = Some (h - 1) \<and> 0 < h"
      then show "\<exists>dp. bfs ns sid p = Some dp \<and> dp < h"
        by (intro exI [of _ "h - 1"]) simp
    qed
  qed
qed

lemma updateRoute_frame:
  "nodeId (updateRoute now sid d n) = nodeId n"
  "connections (updateRoute now sid d n) = connections n"
  "nodeType (updateRoute now sid d n) = nodeType n"
  by (auto simp: updateRoute_def Let_def demote_def split: option.splits)

lemma updateRoute_other:
  assumes "sid' \<noteq> sid"
  shows "map_of (routingTable (updateRoute now sid' d n)) sid = map_of (routingTable n) sid"
    and "map_of (inactiveRoutingTables (updateRoute now sid' d n)) sid
         = map_of (inactiveRoutingTables n) sid"
  using assms
  by (auto simp: updateRoute_def Let_def demote_def update_conv' delete_conv' split: option.splits)

lemma updateRoute_reached:
  assumes wf: "wfLinks ns" and n: "n \<in> set ns" and ne: "nodeId n \<noteq> sid"
    and h: "bfs ns sid (nodeId n) = Some h"
    and same: "nodeId n' = nodeId n" "connections n' = connections n"
  shows "map_of (routingTable (updateRoute now sid (bfs ns sid) n')) sid
         = Some \<lparr>nextHops = findNextHops (bfs ns sid) h (connections n), lastUpdate = now\<rparr>"
    and "map_of (inactiveRoutingTables (updateRoute now sid (bfs ns sid) n')) sid = None"
proof -
  from bfs_parent [OF wf n ne h] obtain p where
    p: "p \<in> set (connections n)" "bfs ns sid p = Some (h - 1)" "0 < h" by blast
  then have "p \<in> {p \<in> set (connections n). \<exists>dp. bfs ns sid p = Some dp \<and> dp < h}" by auto
  then have "p \<in> fst ` set (findNextHops (bfs ns sid) h (connections n))"
    unfolding findNextHops_keys .
  then have nonempty: "findNextHops (bfs ns sid) h (connections n) \<noteq> []" by auto
  let ?hops = "findNextHops (bfs ns sid) h (connections n)"
  have len: "0 < length ?hops" using nonempty by simp
  have ne': "nodeId n' \<noteq> sid" using ne same by simp
  have h': "bfs ns sid (nodeId n') = Some h" using h same by simp
  have u: "updateRoute now sid (bfs ns sid) n'
           = n'\<lparr>routingTable :=
                  AList.update sid \<lparr>nextHops = ?hops, lastUpdate = now\<rparr> (routingTable n'),
                inactiveRoutingTables :=
                  (if map_has (inactiveRoutingTables n') sid
                   then AList.delete sid (inactiveRoutingTables n')
                   else inactiveRoutingTables n')\<rparr>"
    unfolding updateRoute_def Let_def using ne' h' len same(2)
    by (simp del: length_greater_0_conv)
  show "map_of (routingTable (updateRoute now sid (bfs ns sid) n')) sid
         = Some \<lparr>nextHops = findNextHops (bfs ns sid) h (connections n), lastUpdate = now\<rparr>"
    unfolding u by (simp add: update_conv')
  show "map_of (inactiveRoutingTables (updateRoute now sid (bfs ns sid) n')) sid = None"
    unfolding u by (simp add: map_has_def delete_conv')
qed

lemma sameGraph_refl [simp]: "sameGraph ns ns"
  by (simp add: sameGraph_def)

lemma sameGraph_trans: "sameGraph a b \<Longrightarrow> sameGraph b c \<Longrightarrow> sameGraph a c"
  by (simp add: sameGraph_def)

lemma sameGraph_length: "sameGraph ns ns' \<Longrightarrow> length ns = length ns'"
  unfolding sameGraph_def by (metis length_map)

lemma sameGraph_nth:
  "sameGraph ns ns' \<Longrightarrow> i < length ns
   \<Longrightarrow> nodeId (ns ! i) = nodeId (ns' ! i) \<and> connections (ns ! i) = connections (ns' ! i)"
  unfolding sameGraph_def by (metis length_map nth_map)

lemma sameGraph_map:
  assumes "\<And>n. nodeId (f n) = nodeId n" "\<And>n. connections (f n) = connections n"
  shows "sameGraph (map f ns) ns"
  using assms by (simp add: sameGraph_def comp_def)

lemma getNode_sameGraph:
  "sameGraph ns ns' \<Longrightarrow>
   (case getNode c ns of
      None \<Rightarrow> getNode c ns' = None
    | Some a \<Rightarrow> (\<exists>a'. getNode c ns' = Some a' \<and> connections a' = connections a))"
proof (induction ns arbitrary: ns')
  case Nil
  then show ?case by (simp add: sameGraph_def getNode_def)
next
  case (Cons a ns)
  then obtain a' ms where ns': "ns' = a' # ms" by (cases ns') (auto simp: sameGraph_def)
  with Cons.prems have e: "nodeId a = nodeId a'" "connections a = connections a'"
    and r: "sameGraph ns ms" by (auto simp: sameGraph_def)
  show ?case
  proof (cases "nodeId a = c")
    case True
    then show ?thesis using e ns' by (simp add: getNode_def)
  next
    case False
    then have x: "getNode c (a # ns) = getNode c ns" and y: "getNode c ns' = getNode c ms"
      using e ns' by (simp_all add: getNode_def)
    from Cons.IH [OF r] show ?thesis unfolding x y .
  qed
qed

lemma bfsLoop_cong:
  "sameGraph ns ns' \<Longrightarrow> bfsLoop ns d q = bfsLoop ns' d q"
proof (induction ns d q rule: bfsLoop.induct)
  case (1 ns distances)
  then show ?case by simp
next
  case (2 ns distances currentId queue)
  show ?case
  proof (cases "getNode currentId ns")
    case None
    with getNode_sameGraph [OF "2.prems", of currentId] have "getNode currentId ns' = None" by simp
    with None "2.IH"(1) [OF None "2.prems"] show ?thesis by simp
  next
    case (Some cn)
    with getNode_sameGraph [OF "2.prems", of currentId] obtain cn' where
      c: "getNode currentId ns' = Some cn'" "connections cn' = connections cn" by auto
    from "2.IH"(2) [OF Some "2.prems"] Some c show ?thesis by simp
  qed
qed

lemma bfs_cong: "sameGraph ns ns' \<Longrightarrow> bfs ns sid = bfs ns' sid"
  unfolding bfs_def by (rule bfsLoop_cong)

lemma routeSink_sameGraph: "sameGraph (nodes (routeSink now w k)) (nodes w)"
  by (simp add: routeSink_def Let_def sameGraph_map updateRoute_frame)

lemma foldl_routeSink_sameGraph: "sameGraph (nodes (foldl (routeSink now) w ks)) (nodes w)"
proof (induction ks arbitrary: w)
  case Nil
  then show ?case by simp
next
  case (Cons k ks)
  from sameGraph_trans [OF Cons.IH [of "routeSink now w k"] routeSink_sameGraph [of now w k]]
  show ?case by simp
qed

lemma foldl_routeSink_entry:
  assumes wf: "wfLinks ns0" and sg: "sameGraph (nodes w) ns0"
    and k: "k \<in> set ks" and kb: "\<forall>x \<in> set ks. x < length ns0"
    and i: "i < length ns0" and ne: "nodeId (ns0 ! i) \<noteq> nodeId (ns0 ! k)"
    and h: "bfs ns0 (nodeId (ns0 ! k)) (nodeId (ns0 ! i)) = Some h"
  shows "map_of (routingTable (nodes (foldl (routeSink now) w ks) ! i)) (nodeId (ns0 ! k))
         = Some \<lparr>nextHops = findNextHops (bfs ns0 (nodeId (ns0 ! k))) h (connections (ns0 ! i)),
                 lastUpdate = now\<rparr>
       \<and> map_of (inactiveRoutingTables (nodes (foldl (routeSink now) w ks) ! i)) (nodeId (ns0 ! k))
         = None"
  using k kb
proof (induction ks rule: rev_induct)
  case Nil
  then show ?case by simp
next
  case (snoc x ks)
  let ?sid = "nodeId (ns0 ! k)"
  let ?w = "foldl (routeSink now) w ks"
  have sgw: "sameGraph (nodes ?w) ns0"
    using sameGraph_trans [OF foldl_routeSink_sameGraph sg] .
  have len: "length (nodes ?w) = length ns0" using sameGraph_length [OF sgw] .
  have xb: "x < length ns0" using snoc.prems(2) by simp
  have xid: "nodeId (nodes ?w ! x) = nodeId (ns0 ! x)"
    using sameGraph_nth [OF sgw] xb len by simp
  have ni: "nodeId (nodes ?w ! i) = nodeId (ns0 ! i)"
    "connections (nodes ?w ! i) = connections (ns0 ! i)"
    using sameGraph_nth [OF sgw] i len by simp_all
  have b: "bfs (nodes ?w) sid = bfs ns0 sid" for sid
    by (rule bfs_cong [OF sgw])
  have step: "nodes (foldl (routeSink now) w (ks @ [x])) ! i
              = updateRoute now (nodeId (ns0 ! x)) (bfs ns0 (nodeId (ns0 ! x))) (nodes ?w ! i)"
    using i len by (simp add: routeSink_def Let_def xid b)
  show ?case
  proof (cases "nodeId (ns0 ! x) = ?sid")
    case True
    have inn: "ns0 ! i \<in> set ns0" using i by simp
    from updateRoute_reached [OF wf inn ne h ni, of now]
    show ?thesis unfolding step True by simp
  next
    case False
    then have "x \<noteq> k" by auto
    with snoc.prems have "k \<in> set ks" "\<forall>x \<in> set ks. x < length ns0" by auto
    from snoc.IH [OF this] updateRoute_other [OF False]
    show ?thesis unfolding step by simp
  qed
qed

lemma map_list_update_frame:
  "f y = f (xs ! k) \<Longrightarrow> map f (xs[k := y]) = map f xs"
  by (cases "k < length xs") (simp_all add: map_update list_update_same_conv list_update_beyond)

lemma demote_frame:
  "nodeId (demote now sid e n) = nodeId n"
  "connections (demote now sid e n) = connections n"
  "nodeType (demote now sid e n) = nodeType n"
  by (simp_all add: demote_def)

lemma demoteMissing_foldl_frame:
  "nodeId (foldl (\<lambda>n sid. (demote now sid (the (map_of (routingTable n) sid)) n)
                          \<lparr>routingTable := AList.delete sid (routingTable n)\<rparr>) n keys) = nodeId n
   \<and> connections (foldl (\<lambda>n sid. (demote now sid (the (map_of (routingTable n) sid)) n)
                          \<lparr>routingTable := AList.delete sid (routingTable n)\<rparr>) n keys)
     = connections n
   \<and> nodeType (foldl (\<lambda>n sid. (demote now sid (the (map_of (routingTable n) sid)) n)
                          \<lparr>routingTable := AList.delete sid (routingTable n)\<rparr>) n keys)
     = nodeType n"
  by (induction keys arbitrary: n) (simp_all add: demote_frame)

lemma demoteMissing_frame:
  "nodeId (demoteMissing now sinkIds n) = nodeId n"
  "connections (demoteMissing now sinkIds n) = connections n"
  "nodeType (demoteMissing now sinkIds n) = nodeType n"
  by (simp_all add: demoteMissing_def Let_def demoteMissing_foldl_frame)

lemma cleanupInactive_frame:
  "nodeId (cleanupInactive now t n) = nodeId n"
  "connections (cleanupInactive now t n) = connections n"
  "nodeType (cleanupInactive now t n) = nodeType n"
  by (simp_all add: cleanupInactive_def Let_def)

lemma routeSink_types: "map nodeType (nodes (routeSink now w k)) = map nodeType (nodes w)"
  by (simp add: routeSink_def Let_def updateRoute_frame comp_def)

lemma foldl_routeSink_types:
  "map nodeType (nodes (foldl (routeSink now) w ks)) = map nodeType (nodes w)"
  by (induction ks arbitrary: w) (simp_all add: routeSink_types)

lemma sinkIndexes_mem: "k \<in> set (sinkIndexes ns) \<longleftrightarrow> k < length ns \<and> nodeType (ns ! k) = Sink"
  by (auto simp: sinkIndexes_def)

lemma rebuildRoutes_sameGraph: "sameGraph (nodes (rebuildRoutes now w)) (nodes w)"
proof -
  have a: "sameGraph (map (cleanupInactive now t \<circ> demoteMissing now ids) (nodes w)) (nodes w)"
    for t ids
    by (rule sameGraph_map) (simp_all add: demoteMissing_frame cleanupInactive_frame)
  show ?thesis
    unfolding rebuildRoutes_def Let_def
    by (rule sameGraph_trans [OF foldl_routeSink_sameGraph]) (simp add: a)
qed

lemma rebuildRoutes_types: "map nodeType (nodes (rebuildRoutes now w)) = map nodeType (nodes w)"
  unfolding rebuildRoutes_def Let_def
  by (simp add: foldl_routeSink_types comp_def demoteMissing_frame cleanupInactive_frame)

lemma rebuildRoutes_entry:
  assumes wf: "wfLinks (nodes w)"
    and k: "k < length (nodes w)" "nodeType (nodes w ! k) = Sink"
    and i: "i < length (nodes w)" and ne: "i \<noteq> k"
    and h: "bfs (nodes w) (nodeId (nodes w ! k)) (nodeId (nodes w ! i)) = Some h"
  shows "map_of (routingTable (nodes (rebuildRoutes now w) ! i)) (nodeId (nodes w ! k))
         = Some \<lparr>nextHops = findNextHops (bfs (nodes w) (nodeId (nodes w ! k))) h
                               (connections (nodes w ! i)),
                 lastUpdate = now\<rparr>
       \<and> map_of (inactiveRoutingTables (nodes (rebuildRoutes now w) ! i)) (nodeId (nodes w ! k))
         = None"
proof -
  have d: "distinct (map nodeId (nodes w))" using wf by (simp add: wfLinks_def)
  have idne: "nodeId (nodes w ! i) \<noteq> nodeId (nodes w ! k)"
    using d i k(1) ne by (metis length_map nth_eq_iff_index_eq nth_map)
  let ?ids = "set_add_all (map (\<lambda>k. nodeId (nodes w ! k)) (sinkIndexes (nodes w))) []"
  let ?w2 = "w\<lparr>nodes := map (cleanupInactive now (inactiveRoutingTimeout w))
                            (map (demoteMissing now ?ids) (nodes w))\<rparr>"
  have sg: "sameGraph (nodes ?w2) (nodes w)"
    by (simp add: sameGraph_def comp_def demoteMissing_frame cleanupInactive_frame)
  have kin: "k \<in> set (sinkIndexes (nodes w))" using k by (simp add: sinkIndexes_mem)
  have kb: "\<forall>x \<in> set (sinkIndexes (nodes w)). x < length (nodes w)"
    by (simp add: sinkIndexes_mem)
  have r: "rebuildRoutes now w = foldl (routeSink now) ?w2 (sinkIndexes (nodes w))"
    by (simp add: rebuildRoutes_def Let_def)
  show ?thesis
    unfolding r by (rule foldl_routeSink_entry [OF wf sg kin kb i idne h])
qed

text \<open>What the replay after the classification leaves alone.\<close>

lemma syncTriageSend_frame:
  assumes "\<And>tid s n. f (markSent tid s n) = f n"
  shows "map f (nodes (syncTriageSend now j k re w tid)) = map f (nodes w)"
  by (simp add: syncTriageSend_def Let_def map_list_update_frame assms)

lemma syncTriage_frame:
  assumes "\<And>tid s n. f (markSent tid s n) = f n"
  shows "map f (nodes (syncTriage now j k re w tid)) = map f (nodes w)"
  by (simp add: syncTriage_def Let_def syncTriageSend_frame [OF assms] split: option.splits)

lemma foldl_syncTriage_frame:
  assumes "\<And>tid s n. f (markSent tid s n) = f n"
  shows "map f (nodes (foldl (syncTriage now j k re) w tids)) = map f (nodes w)"
  by (induction tids arbitrary: w) (simp_all add: syncTriage_frame [OF assms])

lemma syncFromSink_frame:
  assumes "\<And>tid s n. f (markSent tid s n) = f n"
  shows "map f (nodes (syncFromSink now j w k)) = map f (nodes w)"
  by (simp add: syncFromSink_def Let_def foldl_syncTriage_frame [OF assms] split: option.splits)

lemma foldl_syncFromSink_frame:
  assumes "\<And>tid s n. f (markSent tid s n) = f n"
  shows "map f (nodes (foldl (syncFromSink now j) w ks)) = map f (nodes w)"
  by (induction ks arbitrary: w) (simp_all add: syncFromSink_frame [OF assms])

lemma syncNewSink_frame:
  assumes "\<And>tid s n. f (markSent tid s n) = f n"
  shows "map f (nodes (syncNewSinkFromExistingSinks now j w)) = map f (nodes w)"
  by (simp add: syncNewSinkFromExistingSinks_def Let_def notifyListeners_def
      foldl_syncFromSink_frame [OF assms])

lemma syncReachableSink_frame:
  assumes "\<And>tid s n. f (markSent tid s n) = f n"
  shows "map f (nodes (syncReachableSink now sinks w p)) = map f (nodes w)"
  by (simp add: syncReachableSink_def Let_def syncNewSink_frame [OF assms])

lemma foldl_syncReachableSink_frame:
  assumes "\<And>tid s n. f (markSent tid s n) = f n"
  shows "map f (nodes (foldl (syncReachableSink now sinks) w ps)) = map f (nodes w)"
  by (induction ps arbitrary: w) (simp_all add: syncReachableSink_frame [OF assms])

lemma markSent_frame:
  "routingTable (markSent tid s n) = routingTable n"
  "inactiveRoutingTables (markSent tid s n) = inactiveRoutingTables n"
  "connections (markSent tid s n) = connections n"
  "nodeId (markSent tid s n) = nodeId n"
  "nodeType (markSent tid s n) = nodeType n"
  "routingState (markSent tid s n) = routingState n"
  "triageStore (markSent tid s n) = triageStore n"
  "triageQueue (markSent tid s n) = triageQueue n"
  by (simp_all add: markSent_def Let_def)

lemma updateRoutingTables_nodes:
  assumes "\<And>tid s n. f (markSent tid s n) = f n"
  shows "map f (nodes (updateRoutingTables now now' w))
         = map (\<lambda>n. f (updateRoutingState now' n)) (nodes (rebuildRoutes now w))"
  by (simp add: updateRoutingTables_def Let_def foldl_syncReachableSink_frame [OF assms]
      updateRoutingStates_def comp_def)

lemma rebuildRoutes_length: "length (nodes (rebuildRoutes now w)) = length (nodes w)"
  using sameGraph_length [OF rebuildRoutes_sameGraph] .

lemma updateRoutingTables_nth:
  assumes "\<And>tid s n. f (markSent tid s n) = f n" and "i < length (nodes w)"
  shows "f (nodes (updateRoutingTables now now' w) ! i)
         = f (updateRoutingState now' (nodes (rebuildRoutes now w) ! i))"
proof -
  have l: "length (nodes (updateRoutingTables now now' w)) = length (nodes w)"
    using updateRoutingTables_nodes [OF assms(1), of now now' w] rebuildRoutes_length [of now w]
    by (metis length_map)
  have "map f (nodes (updateRoutingTables now now' w)) ! i
        = map (\<lambda>n. f (updateRoutingState now' n)) (nodes (rebuildRoutes now w)) ! i"
    by (simp only: updateRoutingTables_nodes [OF assms(1)])
  then show ?thesis
    using assms(2) l rebuildRoutes_length [of now w] by simp
qed

lemma routing_entry_after_pass:
  assumes wf: "wfLinks (nodes w)"
    and k: "k < length (nodes w)" "nodeType (nodes w ! k) = Sink"
    and i: "i < length (nodes w)" and ne: "i \<noteq> k"
    and h: "bfs (nodes w) (nodeId (nodes w ! k)) (nodeId (nodes w ! i)) = Some h"
  shows "map_of (routingTable (nodes (updateRoutingTables now now' w) ! i)) (nodeId (nodes w ! k))
         = Some \<lparr>nextHops = findNextHops (bfs (nodes w) (nodeId (nodes w ! k))) h
                               (connections (nodes w ! i)),
                 lastUpdate = now\<rparr>"
    and "map_of (inactiveRoutingTables (nodes (updateRoutingTables now now' w) ! i))
           (nodeId (nodes w ! k)) = None"
    and "connections (nodes (updateRoutingTables now now' w) ! i) = connections (nodes w ! i)"
proof -
  let ?r = "nodes (rebuildRoutes now w) ! i"
  have rt: "routingTable (nodes (updateRoutingTables now now' w) ! i) = routingTable ?r"
    using updateRoutingTables_nth [of routingTable i w now now'] i
    by (simp add: markSent_frame updateRoutingState_frame)
  have it: "inactiveRoutingTables (nodes (updateRoutingTables now now' w) ! i)
            = inactiveRoutingTables ?r"
    using updateRoutingTables_nth [of inactiveRoutingTables i w now now'] i
    by (simp add: markSent_frame updateRoutingState_frame)
  have cn: "connections (nodes (updateRoutingTables now now' w) ! i) = connections ?r"
    using updateRoutingTables_nth [of connections i w now now'] i
    by (simp add: markSent_frame updateRoutingState_frame)
  have cr: "connections ?r = connections (nodes w ! i)"
    using sameGraph_nth [OF rebuildRoutes_sameGraph, of i now w] i rebuildRoutes_length [of now w]
    by simp
  from rebuildRoutes_entry [OF wf k i ne h, of now]
  show "map_of (routingTable (nodes (updateRoutingTables now now' w) ! i)) (nodeId (nodes w ! k))
         = Some \<lparr>nextHops = findNextHops (bfs (nodes w) (nodeId (nodes w ! k))) h
                               (connections (nodes w ! i)),
                 lastUpdate = now\<rparr>"
    and "map_of (inactiveRoutingTables (nodes (updateRoutingTables now now' w) ! i))
           (nodeId (nodes w ! k)) = None"
    unfolding rt it by simp_all
  show "connections (nodes (updateRoutingTables now now' w) ! i) = connections (nodes w ! i)"
    unfolding cn cr ..
qed

text \<open>
  C2: a routing pass on a well-formed world (unique ids, symmetric links between existing
  nodes, which is what \<open>updateConnections\<close> builds). Let \<open>S\<close> be a sink, \<open>N\<close> a non-sink
  node and \<open>h\<close> the hop count at which the BFS from \<open>S\<close> over the neighbor sets reaches
  \<open>N\<close>. After the pass \<open>N\<close> has a routing entry for \<open>S\<close>; its \<open>lastUpdate\<close> is the
  timestamp of the pass; its next hops are exactly the neighbors of \<open>N\<close> at BFS distance
  \<open>h - 1\<close>, each mapped to its own distance plus one (which is \<open>h\<close>); \<open>N\<close> has no
  inactive entry for \<open>S\<close>; and the neighbor set of \<open>N\<close> is the one the BFS ran over.
\<close>

theorem routing_pass_installs_bfs_next_hops:
  assumes "wfLinks (nodes w)"
    and "k < length (nodes w)" and "nodeType (nodes w ! k) = Sink"
    and "i < length (nodes w)" and "nodeType (nodes w ! i) = Source"
    and "bfs (nodes w) (nodeId (nodes w ! k)) (nodeId (nodes w ! i)) = Some h"
  shows "\<exists>entry.
      map_of (routingTable (nodes (updateRoutingTables now now' w) ! i)) (nodeId (nodes w ! k))
        = Some entry
    \<and> lastUpdate entry = now
    \<and> distinct (map fst (nextHops entry))
    \<and> 0 < h
    \<and> set (map fst (nextHops entry))
        = {p \<in> set (connections (nodes w ! i)).
             bfs (nodes w) (nodeId (nodes w ! k)) p = Some (h - 1)}
    \<and> list_all (\<lambda>pc. bfs (nodes w) (nodeId (nodes w ! k)) (fst pc) = Some (snd pc - 1)
                        \<and> snd pc = h) (nextHops entry)
    \<and> map_of (inactiveRoutingTables (nodes (updateRoutingTables now now' w) ! i))
          (nodeId (nodes w ! k)) = None
    \<and> connections (nodes (updateRoutingTables now now' w) ! i) = connections (nodes w ! i)"
proof -
  let ?sid = "nodeId (nodes w ! k)"
  let ?d = "bfs (nodes w) ?sid"
  let ?hops = "findNextHops ?d h (connections (nodes w ! i))"
  have ne: "i \<noteq> k" using assms(3,5) by auto
  note e = routing_entry_after_pass [OF assms(1,2,3,4) ne assms(6), of now now']
  have nin: "nodes w ! i \<in> set (nodes w)" using assms(4) by simp
  have idne: "nodeId (nodes w ! i) \<noteq> ?sid"
    using assms(1,2,4) ne unfolding wfLinks_def
    by (metis length_map nth_eq_iff_index_eq nth_map)
  have pos: "0 < h" using bfs_parent [OF assms(1) nin idne assms(6)] by simp
  have keys: "set (map fst ?hops)
        = {p \<in> set (connections (nodes w ! i)). ?d p = Some (h - 1)}"
    using findNextHops_keys [of ?d h "connections (nodes w ! i)"]
      nextHops_exact [OF assms(1) nin assms(6)] pos by simp
  have vals: "list_all (\<lambda>pc. ?d (fst pc) = Some (snd pc - 1) \<and> snd pc = h) ?hops"
    unfolding list_all_iff
  proof
    fix pc assume pc: "pc \<in> set ?hops"
    then have m: "map_of ?hops (fst pc) = Some (snd pc)"
      using findNextHops_distinct [of ?d h "connections (nodes w ! i)"] by simp
    from pc have "fst pc \<in> set (map fst ?hops)" by auto
    then have "?d (fst pc) = Some (h - 1)" unfolding keys by simp
    with m pos show "?d (fst pc) = Some (snd pc - 1) \<and> snd pc = h"
      by (auto simp: findNextHops_map_of split: if_splits)
  qed
  show ?thesis
    using e pos keys vals findNextHops_distinct [of ?d h "connections (nodes w ! i)"]
    by (intro exI [of _ "\<lparr>nextHops = ?hops, lastUpdate = now\<rparr>"]) simp
qed

lemma line_bfs:
  "bfs (nodes lineWorld) ''C'' ''A'' = Some 2"
  "bfs (nodes lineWorld) ''C'' ''B'' = Some 1"
  by (simp_all add: bfs_def lineWorld_def createNode_def getNode_def visitNeighbor_def)

lemma line_wf: "wfLinks (nodes lineWorld)"
  by (simp add: wfLinks_def lineWorld_def createNode_def)

theorem routing_pass_installs_bfs_next_hops_witness:
  "wfLinks (nodes lineWorld)
   \<and> nodeType (nodes lineWorld ! 2) = Sink \<and> nodeType (nodes lineWorld ! 0) = Source
   \<and> bfs (nodes lineWorld) ''C'' ''A'' = Some 2
   \<and> map_option (\<lambda>e. (set (map fst (nextHops e)), lastUpdate e))
        (map_of (routingTable (nodes (updateRoutingTables 10 11 lineWorld) ! 0)) ''C'')
      = Some ({''B''}, 10)"
proof -
  have l: "(2::nat) < length (nodes lineWorld)" "(0::nat) < length (nodes lineWorld)"
    by (simp_all add: lineWorld_def)
  have t: "nodeType (nodes lineWorld ! 2) = Sink" "nodeType (nodes lineWorld ! 0) = Source"
    by (simp_all add: lineWorld_def createNode_def)
  have ids: "nodeId (nodes lineWorld ! 2) = ''C''" "nodeId (nodes lineWorld ! 0) = ''A''"
    "connections (nodes lineWorld ! 0) = [''B'']"
    by (simp_all add: lineWorld_def createNode_def)
  have h: "bfs (nodes lineWorld) (nodeId (nodes lineWorld ! 2)) (nodeId (nodes lineWorld ! 0))
           = Some 2"
    unfolding ids by (rule line_bfs)
  from routing_pass_installs_bfs_next_hops [OF line_wf l(1) t(1) l(2) t(2) h, of 10 11]
  show ?thesis
    using line_wf t line_bfs by (auto simp: ids)
qed

section \<open>Properties of the links and of the endpoints of new messages\<close>

lemma length_addConnection [simp]: "length (addConnection k p ns) = length ns"
  by (simp add: addConnection_def)

lemma nodeId_addConnection [simp]: "map nodeId (addConnection k p ns) = map nodeId ns"
  by (simp add: addConnection_def map_list_update_frame)

lemma connections_addConnection:
  "a < length ns \<Longrightarrow>
   set (connections (addConnection k p ns ! a))
   = set (connections (ns ! a)) \<union> (if a = k then {p} else {})"
  by (auto simp: addConnection_def nth_list_update)

lemma symInv_link:
  assumes inv: "symInv ids ns" and d: "distinct ids" and i: "i < length ids" and j: "j < length ids"
  shows "symInv ids (addConnection j (ids ! i) (addConnection i (ids ! j) ns))"
proof -
  let ?ns' = "addConnection j (ids ! i) (addConnection i (ids ! j) ns)"
  have len: "length ns = length ids" using inv unfolding symInv_def by (metis length_map)
  have ids: "map nodeId ?ns' = ids" using inv by (simp add: symInv_def)
  have conn: "set (connections (?ns' ! a))
              = set (connections (ns ! a)) \<union> (if a = i then {ids ! j} else {})
                \<union> (if a = j then {ids ! i} else {})" if "a < length ids" for a
    using that len by (simp add: connections_addConnection)
  have sub: "set (connections (?ns' ! a)) \<subseteq> set ids" if "a < length ids" for a
  proof -
    have "set (connections (ns ! a)) \<subseteq> set ids" using inv that by (simp add: symInv_def)
    moreover have "ids ! i \<in> set ids" "ids ! j \<in> set ids" using i j by simp_all
    ultimately show ?thesis unfolding conn [OF that] by auto
  qed
  have mem: "(ids ! b \<in> set (connections (?ns' ! a)))
             = (ids ! b \<in> set (connections (ns ! a)) \<or> (a = i \<and> b = j) \<or> (a = j \<and> b = i))"
    if "a < length ids" "b < length ids" for a b
  proof -
    have "(ids ! b = ids ! j) = (b = j)" "(ids ! b = ids ! i) = (b = i)"
      using d that(2) i j by (simp_all add: nth_eq_iff_index_eq)
    then show ?thesis unfolding conn [OF that(1)] by auto
  qed
  have sym: "(ids ! b \<in> set (connections (?ns' ! a))) = (ids ! a \<in> set (connections (?ns' ! b)))"
    if "a < length ids" "b < length ids" for a b
  proof -
    have "(ids ! b \<in> set (connections (ns ! a))) = (ids ! a \<in> set (connections (ns ! b)))"
      using inv that by (simp add: symInv_def)
    then show ?thesis unfolding mem [OF that] mem [OF that(2,1)] by auto
  qed
  show ?thesis
    unfolding symInv_def using ids sub sym by blast
qed

lemma symInv_linkPair:
  assumes inv: "symInv ids ns" and d: "distinct ids" and i: "i < length ids" and j: "j < length ids"
  shows "symInv ids (linkPair ns (i, j))"
proof -
  have len: "length ns = length ids" using inv unfolding symInv_def by (metis length_map)
  have "nodeId (ns ! i) = ids ! i" "nodeId (ns ! j) = ids ! j"
    using inv i j len unfolding symInv_def by (metis nth_map)+
  then show ?thesis
    using symInv_link [OF inv d i j] inv by (simp add: linkPair_def Let_def)
qed

lemma nodePairs_bound: "(i, j) \<in> set (nodePairs n) \<Longrightarrow> i < n \<and> j < n"
  by (auto simp: nodePairs_def)

lemma symInv_foldl:
  assumes "symInv ids ns" and "distinct ids" and "\<forall>ij \<in> set ps. fst ij < length ids \<and> snd ij < length ids"
  shows "symInv ids (foldl linkPair ns ps)"
  using assms
proof (induction ps arbitrary: ns)
  case Nil
  then show ?case by simp
next
  case (Cons p ps)
  obtain i j where p: "p = (i, j)" by (cases p)
  with Cons.prems(3) have "i < length ids" "j < length ids" by auto
  from symInv_linkPair [OF Cons.prems(1,2) this] have "symInv ids (linkPair ns p)" by (simp add: p)
  from Cons.IH [OF this Cons.prems(2)] Cons.prems(3) show ?case by simp
qed

lemma symInv_wfLinks:
  assumes "symInv ids ns" and "distinct ids"
  shows "wfLinks ns"
proof -
  have ids: "map nodeId ns = ids" using assms(1) by (simp add: symInv_def)
  have len: "length ns = length ids" using ids by (metis length_map)
  have sub: "\<And>x. x < length ids \<Longrightarrow> set (connections (ns ! x)) \<subseteq> set ids"
    using assms(1) unfolding symInv_def by blast
  have sym: "\<And>x y. x < length ids \<Longrightarrow> y < length ids \<Longrightarrow>
      (ids ! y \<in> set (connections (ns ! x))) = (ids ! x \<in> set (connections (ns ! y)))"
    using assms(1) unfolding symInv_def by blast
  have "\<exists>b \<in> set ns. nodeId b = p \<and> nodeId a \<in> set (connections b)"
    if a: "a \<in> set ns" and p: "p \<in> set (connections a)" for a p
  proof -
    from a obtain x where x: "x < length ns" "ns ! x = a" by (auto simp: in_set_conv_nth)
    have xl: "x < length ids" using x len by simp
    have ax: "nodeId a = ids ! x" using x ids by (metis nth_map)
    have pc: "p \<in> set (connections (ns ! x))" using p x by simp
    with sub [OF xl] have "p \<in> set ids" by auto
    then obtain y where y: "y < length ids" "ids ! y = p" by (auto simp: in_set_conv_nth)
    from sym [OF xl y(1)] pc y(2) have "ids ! x \<in> set (connections (ns ! y))" by simp
    moreover have "nodeId (ns ! y) = p" using y ids len by (metis nth_map)
    moreover have "ns ! y \<in> set ns" using y len by simp
    ultimately show ?thesis using ax by auto
  qed
  then show ?thesis using assms(2) ids by (auto simp: wfLinks_def)
qed

lemma rebuildLinks_wf:
  assumes "distinct (map nodeId ns)"
  shows "wfLinks (rebuildLinks ns)" and "map nodeId (rebuildLinks ns) = map nodeId ns"
proof -
  let ?ids = "map nodeId ns"
  have init: "symInv ?ids (map (\<lambda>n. n\<lparr>connections := []\<rparr>) ns)"
    by (simp add: symInv_def comp_def)
  have b: "\<forall>ij \<in> set (nodePairs (length ns)). fst ij < length ?ids \<and> snd ij < length ?ids"
    using nodePairs_bound by auto
  have s: "symInv ?ids (rebuildLinks ns)"
    unfolding rebuildLinks_def by (rule symInv_foldl [OF init assms b])
  show "wfLinks (rebuildLinks ns)" by (rule symInv_wfLinks [OF s assms])
  show "map nodeId (rebuildLinks ns) = map nodeId ns" using s by (simp add: symInv_def)
qed

lemma linkOf_linked: "wfLinks ns \<Longrightarrow> linkOf ns m \<Longrightarrow> linked ns m"
  unfolding wfLinks_def linkOf_def linked_def by metis

lemma linkOfI:
  "i < length ns \<Longrightarrow> fromNodeId m = nodeId (ns ! i) \<Longrightarrow> toNodeId m \<in> set (connections (ns ! i))
   \<Longrightarrow> linkOf ns m"
  unfolding linkOf_def by (metis nth_mem)

lemma sameGraph_sym: "sameGraph a b \<Longrightarrow> sameGraph b a"
  by (simp add: sameGraph_def)

lemma linkOf_sameGraph:
  assumes "sameGraph ns ns'" and "linkOf ns m"
  shows "linkOf ns' m"
proof -
  from assms(2) obtain a where a: "a \<in> set ns" "nodeId a = fromNodeId m"
    "toNodeId m \<in> set (connections a)" unfolding linkOf_def by blast
  from a(1) obtain i where i: "i < length ns" "ns ! i = a" by (auto simp: in_set_conv_nth)
  from sameGraph_nth [OF assms(1) i(1)] sameGraph_length [OF assms(1)] i a
  show ?thesis by (intro linkOfI [of i]) auto
qed

lemma wfLinks_sameGraph:
  assumes sg: "sameGraph ns ns'" and wf: "wfLinks ns"
  shows "wfLinks ns'"
proof -
  have d: "distinct (map nodeId ns')" using sg wf by (simp add: sameGraph_def wfLinks_def)
  have "\<exists>b \<in> set ns'. nodeId b = p \<and> nodeId a \<in> set (connections b)"
    if a: "a \<in> set ns'" and p: "p \<in> set (connections a)" for a p
  proof -
    from a obtain i where i: "i < length ns'" "ns' ! i = a" by (auto simp: in_set_conv_nth)
    have l: "length ns = length ns'" by (rule sameGraph_length [OF sg])
    have e: "nodeId (ns ! i) = nodeId a" "connections (ns ! i) = connections a"
      using sameGraph_nth [OF sg, of i] i l by simp_all
    have "ns ! i \<in> set ns" using i l by simp
    with wf p e obtain b where b: "b \<in> set ns" "nodeId b = p" "nodeId a \<in> set (connections b)"
      unfolding wfLinks_def by metis
    from b(1) obtain j where j: "j < length ns" "ns ! j = b" by (auto simp: in_set_conv_nth)
    have "nodeId (ns' ! j) = p" "nodeId a \<in> set (connections (ns' ! j))"
      using sameGraph_nth [OF sg j(1)] j b by simp_all
    moreover have "ns' ! j \<in> set ns'" using j l by simp
    ultimately show ?thesis by blast
  qed
  with d show ?thesis unfolding wfLinks_def by blast
qed

lemma appends_mono: "appends P w w' \<Longrightarrow> (\<And>m. P m \<Longrightarrow> Q m) \<Longrightarrow> appends Q w w'"
  unfolding appends_def by blast

lemma appends_foldl_inv:
  assumes step: "\<And>v x. I v \<Longrightarrow> x \<in> set xs \<Longrightarrow> I (f v x) \<and> appends P v (f v x)"
    and init: "I w"
  shows "I (foldl f w xs) \<and> appends P w (foldl f w xs)"
  using assms
proof (induction xs arbitrary: w)
  case Nil
  then show ?case by (simp add: appends_refl)
next
  case (Cons x xs)
  have s: "I (f w x) \<and> appends P w (f w x)" using Cons.prems(1) [OF Cons.prems(2), of x] by simp
  have "I (foldl f (f w x) xs) \<and> appends P (f w x) (foldl f (f w x) xs)"
    by (rule Cons.IH) (use Cons.prems(1) s in auto)
  with s show ?case using appends_trans by auto
qed

lemma sameGraph_update:
  assumes "sameGraph ns ns0" and "nodeId y = nodeId (ns ! i)" "connections y = connections (ns ! i)"
  shows "sameGraph (ns[i := y]) ns0"
  using assms by (simp add: sameGraph_def map_list_update_frame)

lemma link_notify_if:
  assumes "sameGraph (nodes w1) ns0 \<and> appends P v w1"
  shows "sameGraph (nodes (if c then notifyListeners w1 else w1)) ns0
       \<and> appends P v (if c then notifyListeners w1 else w1)"
  using assms by (simp add: appends_def notifyListeners_def)

lemma sendQueuedTriage_link:
  assumes "sameGraph (nodes v) ns0" and "i < length ns0"
  shows "sameGraph (nodes (sendQueuedTriage now i tid sev v)) ns0
       \<and> appends (linkOf ns0) v (sendQueuedTriage now i tid sev v)"
proof -
  have e: "nodeId (nodes v ! i) = nodeId (ns0 ! i)" "connections (nodes v ! i) = connections (ns0 ! i)"
    using sameGraph_nth [OF assms(1), of i] sameGraph_length [OF assms(1)] assms(2) by simp_all
  have "linkOf ns0 (newMessage now (nodeId (ns0 ! i)) Triage (Some tid) (Some sev) t)"
    if "t \<in> set (connections (ns0 ! i))" for t
    using that assms(2) by (intro linkOfI [of i]) (simp_all add: newMessage_def)
  then have "appends (linkOf ns0) v (sendQueuedTriage now i tid sev v)"
    unfolding appends_def sendQueuedTriage_messages e by auto
  then show ?thesis using assms(1) by (simp add: sendQueuedTriage_nodes)
qed

lemma flushQueue_link:
  assumes "sameGraph (nodes v) ns0" and "i < length ns0"
  shows "sameGraph (nodes (flushQueue now i v)) ns0
       \<and> appends (linkOf ns0) v (flushQueue now i v)"
proof (cases "length (connections (nodes v ! i)) > 0 \<and> length (triageQueue (nodes v ! i)) > 0")
  case False
  then show ?thesis using assms(1) by (auto simp: flushQueue_def Let_def appends_refl)
next
  case True
  let ?v1 = "v\<lparr>nodes := (nodes v)[i := (nodes v ! i)\<lparr>triageQueue := []\<rparr>]\<rparr>"
  have s1: "sameGraph (nodes ?v1) ns0"
    using sameGraph_update [OF assms(1), of "(nodes v ! i)\<lparr>triageQueue := []\<rparr>" i] by simp
  have a1: "appends (linkOf ns0) v ?v1" by (simp add: appends_refl)
  have "sameGraph (nodes (foldl (\<lambda>w' q. sendQueuedTriage now i (qTriageId q) (qSeverity q) w')
                           ?v1 (triageQueue (nodes v ! i)))) ns0
        \<and> appends (linkOf ns0) ?v1
            (foldl (\<lambda>w' q. sendQueuedTriage now i (qTriageId q) (qSeverity q) w')
                           ?v1 (triageQueue (nodes v ! i)))"
    by (rule appends_foldl_inv [where I = "\<lambda>v. sameGraph (nodes v) ns0"])
      (use sendQueuedTriage_link [OF _ assms(2)] s1 in auto)
  then show ?thesis
    using True a1 appends_trans by (auto simp: flushQueue_def Let_def)
qed

lemma replayToSink_link:
  assumes "sameGraph (nodes v) ns0" and "i < length ns0"
    and "nodeId peer \<in> set (connections (ns0 ! i))"
  shows "sameGraph (nodes (replayToSink now i peer v)) ns0
       \<and> appends (linkOf ns0) v (replayToSink now i peer v)"
proof -
  have e: "nodeId (nodes v ! i) = nodeId (ns0 ! i)"
    using sameGraph_nth [OF assms(1), of i] sameGraph_length [OF assms(1)] assms(2) by simp
  let ?m = "\<lambda>tid. newMessage now (nodeId (ns0 ! i)) Triage (Some tid) (Some Red) (nodeId peer)"
  have l: "linkOf ns0 (?m tid)" for tid
    using assms(2,3) by (intro linkOfI [of i]) (simp_all add: newMessage_def)
  let ?f = "\<lambda>w' tid. if tid \<notin> set (triageStore peer)
                        then w'\<lparr>messages := messages w' @ [?m tid]\<rparr> else w'"
  have "sameGraph (nodes (foldl ?f v xs)) ns0 \<and> appends (linkOf ns0) v (foldl ?f v xs)" for xs
    by (rule appends_foldl_inv [where I = "\<lambda>v. sameGraph (nodes v) ns0"])
      (use l assms(1) in \<open>auto simp: appends_def\<close>)
  then show ?thesis
    unfolding replayToSink_def Let_def e
    by (intro link_notify_if) simp
qed

lemma replayTriage_link:
  assumes "sameGraph (nodes v) ns0" and "i < length ns0"
    and "nodeId peer \<in> set (connections (ns0 ! i))"
  shows "sameGraph (nodes (replayTriage now i peer rs v tid)) ns0
       \<and> appends (linkOf ns0) v (replayTriage now i peer rs v tid)"
proof -
  have e: "nodeId (nodes v ! i) = nodeId (ns0 ! i)"
    using sameGraph_nth [OF assms(1), of i] sameGraph_length [OF assms(1)] assms(2) by simp
  have l: "linkOf ns0 (newMessage now (nodeId (ns0 ! i)) Triage (Some tid) (Some Red) (nodeId peer))"
    using assms(2,3) by (intro linkOfI [of i]) (simp_all add: newMessage_def)
  have u: "sameGraph ((nodes v)[i := markSent tid rs (nodes v ! i)]) ns0"
    by (rule sameGraph_update [OF assms(1)]) (simp_all add: markSent_frame)
  show ?thesis
    unfolding replayTriage_def Let_def e
    using assms(1) u l by (auto simp: appends_def)
qed

lemma replayGeneral_link:
  assumes "sameGraph (nodes v) ns0" and "i < length ns0"
    and "nodeId peer \<in> set (connections (ns0 ! i))"
  shows "sameGraph (nodes (replayGeneral now i peer v)) ns0
       \<and> appends (linkOf ns0) v (replayGeneral now i peer v)"
proof -
  have "sameGraph (nodes (foldl (replayTriage now i peer rs) v xs)) ns0
        \<and> appends (linkOf ns0) v (foldl (replayTriage now i peer rs) v xs)" for rs xs
    by (rule appends_foldl_inv [where I = "\<lambda>v. sameGraph (nodes v) ns0"])
      (use replayTriage_link [OF _ assms(2,3)] assms(1) in auto)
  then have g: "sameGraph (nodes (if c then notifyListeners (foldl (replayTriage now i peer rs) v xs)
                                   else foldl (replayTriage now i peer rs) v xs)) ns0
      \<and> appends (linkOf ns0) v (if c then notifyListeners (foldl (replayTriage now i peer rs) v xs)
                                   else foldl (replayTriage now i peer rs) v xs)" for c rs xs
    by (intro link_notify_if) simp
  show ?thesis
  proof (cases "length (map fst (routingTable peer)) > 0 \<and> length (triageStore (nodes v ! i)) > 0")
    case True
    then show ?thesis
      unfolding replayGeneral_def Let_def using g by (simp del: length_greater_0_conv)
  next
    case False
    then show ?thesis
      unfolding replayGeneral_def Let_def using assms(1)
      by (auto simp: appends_refl)
  qed
qed

lemma syncNewLink_link:
  assumes "sameGraph (nodes v) ns0" and "i < length ns0"
    and "peerId \<in> set (connections (ns0 ! i))"
  shows "sameGraph (nodes (syncNewLink now prev i v peerId)) ns0
       \<and> appends (linkOf ns0) v (syncNewLink now prev i v peerId)"
proof (cases "peerId \<in> set prev \<or> getNode peerId (nodes v) = None")
  case True
  then show ?thesis using assms(1) by (auto simp: syncNewLink_def appends_refl)
next
  case False
  then obtain peer where p: "getNode peerId (nodes v) = Some peer" by auto
  then have "nodeId peer = peerId" using getNode_Some_mem by blast
  with assms(3) have pc: "nodeId peer \<in> set (connections (ns0 ! i))" by simp
  show ?thesis
    using False p replayToSink_link [OF assms(1,2) pc] replayGeneral_link [OF assms(1,2) pc]
    by (simp add: syncNewLink_def)
qed

lemma processNode_link:
  assumes "sameGraph (nodes v) ns0" and "i < length ns0"
  shows "sameGraph (nodes (processNode now pn v i)) ns0
       \<and> appends (linkOf ns0) v (processNode now pn v i)"
proof -
  let ?v1 = "flushQueue now i v"
  from flushQueue_link [OF assms] have f: "sameGraph (nodes ?v1) ns0"
    "appends (linkOf ns0) v ?v1" by simp_all
  have c: "connections (nodes ?v1 ! i) = connections (ns0 ! i)"
    using sameGraph_nth [OF f(1), of i] sameGraph_length [OF f(1)] assms(2) by simp
  have "sameGraph (nodes (foldl (syncNewLink now prev i) ?v1 (connections (ns0 ! i)))) ns0
        \<and> appends (linkOf ns0) ?v1 (foldl (syncNewLink now prev i) ?v1 (connections (ns0 ! i)))"
    for prev
    by (rule appends_foldl_inv [where I = "\<lambda>v. sameGraph (nodes v) ns0"])
      (use syncNewLink_link [OF _ assms(2)] f(1) in auto)
  then show ?thesis
    unfolding processNode_def Let_def c using f(2) appends_trans by blast
qed

lemma updateConnections_link:
  assumes "distinct (map nodeId (nodes w))"
  shows "wfLinks (nodes (updateConnections now w))"
    and "map nodeId (nodes (updateConnections now w)) = map nodeId (nodes w)"
    and "appends (linked (nodes (updateConnections now w))) w (updateConnections now w)"
proof -
  let ?ns0 = "rebuildLinks (nodes w)"
  let ?w1 = "w\<lparr>nodes := ?ns0\<rparr>"
  have wf0: "wfLinks ?ns0" and ids: "map nodeId ?ns0 = map nodeId (nodes w)"
    using rebuildLinks_wf [OF assms] by simp_all
  have r: "sameGraph (nodes (foldl (processNode now pn) ?w1 [0 ..< length ?ns0])) ?ns0
         \<and> appends (linkOf ?ns0) ?w1 (foldl (processNode now pn) ?w1 [0 ..< length ?ns0])" for pn
    by (rule appends_foldl_inv [where I = "\<lambda>v. sameGraph (nodes v) ?ns0"])
      (use processNode_link in auto)
  obtain pn where u: "updateConnections now w = foldl (processNode now pn) ?w1 [0 ..< length ?ns0]"
    by (simp add: updateConnections_def Let_def)
  have sg: "sameGraph (nodes (updateConnections now w)) ?ns0" using r [of pn] u by simp
  have ap: "appends (linkOf ?ns0) w (updateConnections now w)"
    using r [of pn] u by (simp add: appends_def)
  show wf: "wfLinks (nodes (updateConnections now w))"
    by (rule wfLinks_sameGraph [OF sameGraph_sym [OF sg] wf0])
  show "map nodeId (nodes (updateConnections now w)) = map nodeId (nodes w)"
    using sg ids by (simp add: sameGraph_def)
  show "appends (linked (nodes (updateConnections now w))) w (updateConnections now w)"
    by (rule appends_mono [OF ap])
      (rule linkOf_linked [OF wf linkOf_sameGraph [OF sameGraph_sym [OF sg]]])
qed

subsection \<open>Targets of a send, of a forward and of new-sink replay\<close>

lemma flood_foldl_subset:
  "set (foldl (\<lambda>targets peerId. if Some peerId \<noteq> ex then set_add peerId targets else targets)
              acc cs) \<subseteq> set acc \<union> set cs"
proof (induction cs arbitrary: acc)
  case Nil
  then show ?case by simp
next
  case (Cons a cs)
  let ?acc = "if Some a \<noteq> ex then set_add a acc else acc"
  have "set ?acc \<subseteq> insert a (set acc)" by auto
  with Cons.IH [of ?acc] show ?case by auto
qed

lemma select_flooding_subset:
  assumes "mode (routingState n) \<noteq> Intelligent"
  shows "set (selectRoutingTargets n ex mt sev msgs now) \<subseteq> set (connections n)"
  using assms flood_foldl_subset [of ex "[]" "connections n"]
  by (auto simp: selectRoutingTargets_def)

lemma greedy_picks_subset: "greedy_picks S l c rem ps \<Longrightarrow> set ps \<subseteq> set rem"
proof (induction ps arbitrary: c rem)
  case Nil
  then show ?case by simp
next
  case (Cons p ps)
  then have "p \<in> set rem" and "greedy_picks S l (c \<union> set (S p)) (removeAll p rem) ps"
    by (simp_all add: greedy_best_def)
  with Cons.IH [of "c \<union> set (S p)" "removeAll p rem"] show ?case by auto
qed

lemma select_intelligent_subset:
  assumes "mode (routingState n) = Intelligent"
  shows "set (selectRoutingTargets n ex mt sev msgs now)
         \<subseteq> {p. \<exists>se \<in> set (routingTable n). p \<in> fst ` set (nextHops (snd se))}"
proof -
  have k: "set (map fst (neighborCoverage n ex now))
           \<subseteq> {p. \<exists>se \<in> set (routingTable n). p \<in> fst ` set (nextHops (snd se))}"
    unfolding neighborCoverage_keys by blast
  have "set (selectRoutingTargets n ex mt sev msgs now) \<subseteq> set (map fst (neighborCoverage n ex now))"
  proof (cases "length (neighborCoverage n ex now) \<le> getMultiRouteCap mt sev")
    case True
    from select_intelligent_small [OF assms True] show ?thesis by simp
  next
    case False
    then have "getMultiRouteCap mt sev < length (neighborCoverage n ex now)" by simp
    from select_intelligent_large [OF assms this, of msgs] greedy_picks_subset
    show ?thesis by blast
  qed
  with k show ?thesis by blast
qed

lemma newMessage_ends [simp]:
  "fromNodeId (newMessage now f mt tid sev t) = f" "toNodeId (newMessage now f mt tid sev t) = t"
  by (simp_all add: newMessage_def)

lemma forwardedMessage_ends [simp]:
  "fromNodeId (forwardedMessage now nid m t) = nid" "toNodeId (forwardedMessage now nid m t) = t"
  by (simp_all add: forwardedMessage_def)

lemma viaRouteI:
  "a \<in> set ns \<Longrightarrow> nodeId a = fromNodeId m
   \<Longrightarrow> toNodeId m \<in> {p. \<exists>se \<in> set (routingTable a). p \<in> fst ` set (nextHops (snd se))}
   \<Longrightarrow> viaRoute ns m"
  unfolding viaRoute_def by blast

lemma sendMessage_ends:
  assumes g: "getNode fromId (nodes w) = Some n"
  shows "mode (routingState n) \<noteq> Intelligent
           \<Longrightarrow> appends (linkOf (nodes w)) w (sendMessage now newId fromId mt sevArg w)"
    and "mode (routingState n) = Intelligent
           \<Longrightarrow> appends (viaRoute (nodes w)) w (sendMessage now newId fromId mt sevArg w)"
proof -
  let ?mk = "newMessage now fromId mt (if mt = Triage then Some newId else None)
               (sendSeverity mt sevArg)"
  from sendMessage_messages [of now newId fromId mt sevArg w] g obtain ts where
    m: "messages (sendMessage now newId fromId mt sevArg w) = messages w @ map ?mk ts"
    and t: "ts = [] \<or> ts = selectRoutingTargets n (Some fromId) (Some mt)
                              (sendSeverity mt sevArg) (messages w) now"
    by auto
  have n: "n \<in> set (nodes w)" "nodeId n = fromId" using getNode_Some_mem [OF g] by simp_all
  show "appends (linkOf (nodes w)) w (sendMessage now newId fromId mt sevArg w)"
    if "mode (routingState n) \<noteq> Intelligent"
  proof -
    have "set ts \<subseteq> set (connections n)"
      using t select_flooding_subset [OF that, of "Some fromId" "Some mt" "sendSeverity mt sevArg" "messages w" now] by auto
    then have "linkOf (nodes w) (?mk x)" if "x \<in> set ts" for x
      using that n unfolding linkOf_def by auto
    then show ?thesis unfolding appends_def m by auto
  qed
  show "appends (viaRoute (nodes w)) w (sendMessage now newId fromId mt sevArg w)"
    if "mode (routingState n) = Intelligent"
  proof -
    have "set ts \<subseteq> {p. \<exists>se \<in> set (routingTable n). p \<in> fst ` set (nextHops (snd se))}"
      using t select_intelligent_subset [OF that, of "Some fromId" "Some mt" "sendSeverity mt sevArg" "messages w" now] by auto
    then have "viaRoute (nodes w) (?mk x)" if "x \<in> set ts" for x
      using that n by (intro viaRouteI [of n]) auto
    then show ?thesis unfolding appends_def m by auto
  qed
qed

lemma onMessageArrival_ends:
  assumes g: "getNode (toNodeId m) (nodes w) = Some n"
  shows "mode (routingState n) \<noteq> Intelligent
           \<Longrightarrow> appends (linkOf (nodes w)) w (onMessageArrival now m w)"
    and "mode (routingState n) = Intelligent
           \<Longrightarrow> appends (viaRoute (nodes w)) w (onMessageArrival now m w)"
proof -
  let ?mk = "forwardedMessage now (toNodeId m) m"
  from onMessageArrival_messages [of now m w] g obtain ts where
    e: "messages (onMessageArrival now m w) = messages w @ map ?mk ts"
    and t: "ts = [] \<or> ts = selectRoutingTargets n (Some (fromNodeId m)) (Some (msgType m))
                              (triageSeverity m) (messages w) now"
    by auto
  have n: "n \<in> set (nodes w)" "nodeId n = toNodeId m" using getNode_Some_mem [OF g] by simp_all
  show "appends (linkOf (nodes w)) w (onMessageArrival now m w)"
    if "mode (routingState n) \<noteq> Intelligent"
  proof -
    have "set ts \<subseteq> set (connections n)"
      using t select_flooding_subset [OF that, of "Some (fromNodeId m)" "Some (msgType m)" "triageSeverity m" "messages w" now] by auto
    then have "linkOf (nodes w) (?mk x)" if "x \<in> set ts" for x
      using that n unfolding linkOf_def by auto
    then show ?thesis unfolding appends_def e by auto
  qed
  show "appends (viaRoute (nodes w)) w (onMessageArrival now m w)"
    if "mode (routingState n) = Intelligent"
  proof -
    have "set ts \<subseteq> {p. \<exists>se \<in> set (routingTable n). p \<in> fst ` set (nextHops (snd se))}"
      using t select_intelligent_subset [OF that, of "Some (fromNodeId m)" "Some (msgType m)" "triageSeverity m" "messages w" now] by auto
    then have "viaRoute (nodes w) (?mk x)" if "x \<in> set ts" for x
      using that n by (intro viaRouteI [of n]) auto
    then show ?thesis unfolding appends_def e by auto
  qed
qed

lemma sameRoutes_nth:
  "sameRoutes ns ns' \<Longrightarrow> i < length ns'
   \<Longrightarrow> nodeId (ns ! i) = nodeId (ns' ! i) \<and> routingTable (ns ! i) = routingTable (ns' ! i)"
  unfolding sameRoutes_def by (metis length_map nth_map)

lemma syncTriageSend_via:
  assumes I: "sameRoutes (nodes v) ns0" and k: "k < length ns0"
    and re: "(x, re) \<in> set (routingTable (ns0 ! k))"
  shows "sameRoutes (nodes (syncTriageSend now j k re v tid)) ns0
       \<and> appends (viaRoute ns0) v (syncTriageSend now j k re v tid)"
proof -
  have e: "nodeId (nodes v ! k) = nodeId (ns0 ! k)" using sameRoutes_nth [OF I k] by simp
  have "viaRoute ns0 (newMessage now (nodeId (ns0 ! k)) Triage (Some tid) (Some Red) (fst hop))"
    if "hop \<in> set (nextHops re)" for hop
    using that k re by (intro viaRouteI [of "ns0 ! k"]) (auto intro!: bexI [of _ "(x, re)"])
  then have a: "appends (viaRoute ns0) v (syncTriageSend now j k re v tid)"
    unfolding appends_def syncTriageSend_def Let_def e by auto
  have "sameRoutes (nodes (syncTriageSend now j k re v tid)) ns0"
    using I unfolding sameRoutes_def syncTriageSend_def Let_def
    by (simp add: map_list_update_frame markSent_frame)
  with a show ?thesis by simp
qed

lemma syncTriage_via:
  assumes I: "sameRoutes (nodes v) ns0" and k: "k < length ns0"
    and re: "(x, re) \<in> set (routingTable (ns0 ! k))"
  shows "sameRoutes (nodes (syncTriage now j k re v tid)) ns0
       \<and> appends (viaRoute ns0) v (syncTriage now j k re v tid)"
  using syncTriageSend_via [OF assms] I
  by (auto simp: syncTriage_def Let_def appends_refl split: option.splits)

lemma syncFromSink_via:
  assumes I: "sameRoutes (nodes v) ns0" and k: "k < length ns0"
  shows "sameRoutes (nodes (syncFromSink now j v k)) ns0
       \<and> appends (viaRoute ns0) v (syncFromSink now j v k)"
proof (cases "map_of (routingTable (nodes v ! k)) (nodeId (nodes v ! j))")
  case None
  then show ?thesis using I by (simp add: syncFromSink_def Let_def appends_refl)
next
  case (Some re)
  then have "(nodeId (nodes v ! j), re) \<in> set (routingTable (nodes v ! k))"
    by (rule map_of_SomeD)
  then have r: "(nodeId (nodes v ! j), re) \<in> set (routingTable (ns0 ! k))"
    using sameRoutes_nth [OF I k] by simp
  have "sameRoutes (nodes (foldl (syncTriage now j k re) v xs)) ns0
        \<and> appends (viaRoute ns0) v (foldl (syncTriage now j k re) v xs)" for xs
    by (rule appends_foldl_inv [where I = "\<lambda>v. sameRoutes (nodes v) ns0"])
      (use syncTriage_via [OF _ k r] I in auto)
  then show ?thesis using Some I by (simp add: syncFromSink_def Let_def appends_refl)
qed

lemma syncNewSink_via:
  "appends (viaRoute (nodes w)) w (syncNewSinkFromExistingSinks now j w)"
proof -
  let ?ks = "filter (\<lambda>k. nodeType (nodes w ! k) = Sink \<and> nodeId (nodes w ! k) \<noteq> nodeId (nodes w ! j))
               [0 ..< length (nodes w)]"
  have "sameRoutes (nodes (foldl (syncFromSink now j) w ?ks)) (nodes w)
        \<and> appends (viaRoute (nodes w)) w (foldl (syncFromSink now j) w ?ks)"
    by (rule appends_foldl_inv [where I = "\<lambda>v. sameRoutes (nodes v) (nodes w)"])
      (use syncFromSink_via in \<open>auto simp: sameRoutes_def\<close>)
  then show ?thesis
    by (auto simp: syncNewSinkFromExistingSinks_def Let_def appends_refl intro: appends_notify)
qed

subsection \<open>Routing tables after a routing pass\<close>

lemma findNextHops_subset: "fst ` set (findNextHops d h cs) \<subseteq> set cs"
  unfolding findNextHops_keys by blast

lemma updateRoute_table:
  assumes "nodeId n \<noteq> sid" and "distinct (map fst (routingTable n))"
  shows "\<exists>x. distinct (map fst (routingTable (updateRoute now sid d n)))
           \<and> map_of (routingTable (updateRoute now sid d n)) = (map_of (routingTable n))(sid := x)
           \<and> (\<forall>e. x = Some e \<longrightarrow> fst ` set (nextHops e) \<subseteq> set (connections n))"
proof (cases "d (nodeId n)")
  case None
  show ?thesis
  proof (cases "map_of (routingTable n) sid")
    case n2: None
    have "routingTable (updateRoute now sid d n) = routingTable n"
      using assms(1) None n2 by (simp add: updateRoute_def)
    moreover have "map_of (routingTable n) = (map_of (routingTable n))(sid := None)"
      using n2 by (simp add: fun_upd_idem)
    ultimately show ?thesis using assms(2) by (intro exI [of _ None]) simp
  next
    case (Some e)
    have "routingTable (updateRoute now sid d n) = AList.delete sid (routingTable n)"
      using assms(1) None Some by (simp add: updateRoute_def demote_def)
    then show ?thesis using assms(2)
      by (intro exI [of _ None]) (simp add: delete_conv' distinct_delete)
  qed
next
  case (Some h)
  let ?hops = "findNextHops d h (connections n)"
  show ?thesis
  proof (cases "length ?hops > 0")
    case True
    have "routingTable (updateRoute now sid d n)
          = AList.update sid \<lparr>nextHops = ?hops, lastUpdate = now\<rparr> (routingTable n)"
      using assms(1) Some True by (simp add: updateRoute_def Let_def del: length_greater_0_conv)
    then show ?thesis using assms(2) findNextHops_subset [of d h "connections n"]
      by (intro exI [of _ "Some \<lparr>nextHops = ?hops, lastUpdate = now\<rparr>"])
        (simp add: update_conv' distinct_update)
  next
    case False
    have "routingTable (updateRoute now sid d n) = AList.delete sid (routingTable n)"
      using assms(1) Some False
      by (simp add: updateRoute_def Let_def demote_def split: option.splits)
    then show ?thesis using assms(2)
      by (intro exI [of _ None]) (simp add: delete_conv' distinct_delete)
  qed
qed

lemma updateRoute_tableInv:
  assumes inv: "tableInv S K n" and k: "sid \<in> K"
  shows "tableInv (insert sid S) K (updateRoute now sid d n)"
proof (cases "nodeId n = sid")
  case True
  then have "updateRoute now sid d n = n" by (simp add: updateRoute_def)
  moreover have "map_of (routingTable n) sid = None" using inv True unfolding tableInv_def by blast
  ultimately show ?thesis using inv unfolding tableInv_def by auto
next
  case False
  from inv have d: "distinct (map fst (routingTable n))" unfolding tableInv_def by blast
  from updateRoute_table [OF False d, of now d] obtain x where
    x: "distinct (map fst (routingTable (updateRoute now sid d n)))"
       "map_of (routingTable (updateRoute now sid d n)) = (map_of (routingTable n))(sid := x)"
       "\<forall>e. x = Some e \<longrightarrow> fst ` set (nextHops e) \<subseteq> set (connections n)"
    by blast
  have f: "nodeId (updateRoute now sid d n) = nodeId n"
    "connections (updateRoute now sid d n) = connections n"
    by (rule updateRoute_frame)+
  have 1: "nodeId n \<notin> dom ((map_of (routingTable n))(sid := x))"
    using inv False unfolding tableInv_def by (auto simp: dom_def)
  have 2: "dom ((map_of (routingTable n))(sid := x)) \<subseteq> K"
    using inv k unfolding tableInv_def by (auto simp: dom_def split: if_splits)
  have 3: "fst ` set (nextHops e) \<subseteq> set (connections n)"
    if "s \<in> insert sid S" "((map_of (routingTable n))(sid := x)) s = Some e" for s e
  proof (cases "s = sid")
    case True
    with that(2) x(3) show ?thesis by simp
  next
    case False
    with that inv show ?thesis unfolding tableInv_def by auto
  qed
  show ?thesis unfolding tableInv_def f x(2) using x(1) 1 2 3 by blast
qed

lemma routeSink_tableInv:
  assumes "\<forall>n \<in> set (nodes w). tableInv S K n" and "nodeId (nodes w ! k) \<in> K"
  shows "\<forall>n \<in> set (nodes (routeSink now w k)). tableInv (insert (nodeId (nodes w ! k)) S) K n"
  using assms by (auto simp: routeSink_def Let_def intro: updateRoute_tableInv)

lemma routeSink_ids: "map nodeId (nodes (routeSink now w k)) = map nodeId (nodes w)"
  by (simp add: routeSink_def Let_def updateRoute_frame comp_def)

lemma foldl_routeSink_tableInv:
  assumes "\<forall>n \<in> set (nodes w). tableInv S K n"
    and "\<forall>k \<in> set ks. k < length (nodes w) \<and> nodeId (nodes w ! k) \<in> K"
  shows "\<forall>n \<in> set (nodes (foldl (routeSink now) w ks)).
           tableInv (S \<union> (\<lambda>k. nodeId (nodes w ! k)) ` set ks) K n"
  using assms
proof (induction ks arbitrary: w S)
  case Nil
  then show ?case by simp
next
  case (Cons k ks)
  let ?w = "routeSink now w k"
  have ids: "map nodeId (nodes ?w) = map nodeId (nodes w)" by (rule routeSink_ids)
  then have len: "length (nodes ?w) = length (nodes w)" by (metis length_map)
  have nth: "nodeId (nodes ?w ! j) = nodeId (nodes w ! j)" if "j < length (nodes w)" for j
    using ids that len by (metis nth_map)
  have a: "\<forall>n \<in> set (nodes ?w). tableInv (insert (nodeId (nodes w ! k)) S) K n"
    by (rule routeSink_tableInv) (use Cons.prems in auto)
  have b: "\<forall>j \<in> set ks. j < length (nodes ?w) \<and> nodeId (nodes ?w ! j) \<in> K"
    using Cons.prems(2) len nth by auto
  have c: "(\<lambda>j. nodeId (nodes ?w ! j)) ` set ks = (\<lambda>j. nodeId (nodes w ! j)) ` set ks"
    using Cons.prems(2) nth by (intro image_cong) auto
  have e: "insert (nodeId (nodes w ! k)) S \<union> (\<lambda>j. nodeId (nodes w ! j)) ` set ks
           = S \<union> (\<lambda>j. nodeId (nodes w ! j)) ` set (k # ks)"
    by auto
  from Cons.IH [OF a b] have "\<forall>n \<in> set (nodes (foldl (routeSink now) ?w ks)).
      tableInv (S \<union> (\<lambda>j. nodeId (nodes w ! j)) ` set (k # ks)) K n"
    unfolding c e .
  then show ?case by simp
qed

lemma foldl_delete_map_of:
  "map_of (foldl (\<lambda>al k. AList.delete k al) al ks) s
   = (if s \<in> set ks then None else map_of al s)"
  by (induction ks arbitrary: al) (simp_all add: delete_conv')

lemma foldl_delete_distinct:
  "distinct (map fst al) \<Longrightarrow> distinct (map fst (foldl (\<lambda>al k. AList.delete k al) al ks))"
  by (induction ks arbitrary: al) (simp_all add: distinct_delete)

lemma demoteMissing_foldl_table:
  "routingTable (foldl (\<lambda>n sid. (demote now sid (the (map_of (routingTable n) sid)) n)
                          \<lparr>routingTable := AList.delete sid (routingTable n)\<rparr>) n keys)
   = foldl (\<lambda>al k. AList.delete k al) (routingTable n) keys"
  by (induction keys arbitrary: n) (simp_all add: demote_def)

lemma demoteMissing_tableInv:
  assumes "distinct (map fst (routingTable n))" and "nodeId n \<notin> fst ` set (routingTable n)"
  shows "tableInv {} (set sinkIds) (demoteMissing now sinkIds n)"
proof -
  let ?keys = "filter (\<lambda>sid. sid \<notin> set sinkIds) (map fst (routingTable n))"
  have t: "routingTable (demoteMissing now sinkIds n)
           = foldl (\<lambda>al k. AList.delete k al) (routingTable n) ?keys"
    by (simp add: demoteMissing_def Let_def demoteMissing_foldl_table)
  have m: "map_of (routingTable (demoteMissing now sinkIds n)) s
           = (if s \<in> set ?keys then None else map_of (routingTable n) s)" for s
    unfolding t by (rule foldl_delete_map_of)
  have d: "distinct (map fst (routingTable (demoteMissing now sinkIds n)))"
    unfolding t using assms(1) by (rule foldl_delete_distinct)
  have k: "dom (map_of (routingTable n)) = fst ` set (routingTable n)"
    by (rule dom_map_of_conv_image_fst)
  have 1: "nodeId n \<notin> dom (map_of (routingTable (demoteMissing now sinkIds n)))"
    using assms(2) k by (auto simp: m dom_def split: if_splits)
  have 2: "dom (map_of (routingTable (demoteMissing now sinkIds n))) \<subseteq> set sinkIds"
  proof
    fix s assume "s \<in> dom (map_of (routingTable (demoteMissing now sinkIds n)))"
    then have "s \<notin> set ?keys" "s \<in> dom (map_of (routingTable n))"
      by (auto simp: m dom_def split: if_splits)
    then show "s \<in> set sinkIds" unfolding k by auto
  qed
  show ?thesis
    unfolding tableInv_def using d 1 2 by (simp add: demoteMissing_frame)
qed

lemma cleanupInactive_table: "routingTable (cleanupInactive now t n) = routingTable n"
  by (simp add: cleanupInactive_def Let_def)

lemma tableInv_cleanup: "tableInv S K n \<Longrightarrow> tableInv S K (cleanupInactive now t n)"
  by (simp add: tableInv_def cleanupInactive_table cleanupInactive_frame)

lemma tableInv_sound:
  assumes "tableInv K K n" and "se \<in> set (routingTable n)"
  shows "fst ` set (nextHops (snd se)) \<subseteq> set (connections n)"
proof -
  from assms(1) have d: "distinct (map fst (routingTable n))" unfolding tableInv_def by blast
  have m: "map_of (routingTable n) (fst se) = Some (snd se)"
    using d assms(2) by (cases se) simp
  then have "fst se \<in> dom (map_of (routingTable n))" by blast
  then have "fst se \<in> K" using assms(1) unfolding tableInv_def by blast
  with assms(1) m show ?thesis unfolding tableInv_def by blast
qed

lemma rebuildRoutes_tableInv:
  assumes wt: "wfTables (nodes w)"
  shows "\<exists>K. \<forall>n \<in> set (nodes (rebuildRoutes now w)). tableInv K K n"
proof -
  let ?sinks = "sinkIndexes (nodes w)"
  let ?ids = "set_add_all (map (\<lambda>k. nodeId (nodes w ! k)) ?sinks) []"
  let ?K = "set ?ids"
  let ?g = "\<lambda>n. cleanupInactive now (inactiveRoutingTimeout w) (demoteMissing now ?ids n)"
  let ?w2 = "w\<lparr>nodes := map ?g (nodes w)\<rparr>"
  have r: "rebuildRoutes now w = foldl (routeSink now) ?w2 ?sinks"
    by (simp add: rebuildRoutes_def Let_def comp_def)
  have K: "?K = (\<lambda>k. nodeId (nodes w ! k)) ` set ?sinks" by simp
  have "tableInv {} ?K (?g n)" if "n \<in> set (nodes w)" for n
    using wt that unfolding wfTables_def
    by (intro tableInv_cleanup demoteMissing_tableInv) blast+
  then have a: "\<forall>n \<in> set (nodes ?w2). tableInv {} ?K n"
    by (simp del: set_set_add_all)
  have id: "nodeId (nodes ?w2 ! k) = nodeId (nodes w ! k)" if "k < length (nodes w)" for k
    using that by (simp add: cleanupInactive_frame demoteMissing_frame)
  have b: "\<forall>k \<in> set ?sinks. k < length (nodes ?w2) \<and> nodeId (nodes ?w2 ! k) \<in> ?K"
  proof
    fix k assume k: "k \<in> set ?sinks"
    then have l: "k < length (nodes w)" by (simp add: sinkIndexes_mem)
    with k id [OF l] show "k < length (nodes ?w2) \<and> nodeId (nodes ?w2 ! k) \<in> ?K"
      unfolding K by auto
  qed
  have c: "(\<lambda>k. nodeId (nodes ?w2 ! k)) ` set ?sinks = ?K"
    unfolding K by (intro image_cong refl id) (simp add: sinkIndexes_mem)
  from foldl_routeSink_tableInv [OF a b, of now]
  have "\<forall>n \<in> set (nodes (rebuildRoutes now w)). tableInv ?K ?K n"
    unfolding r c by simp
  then show ?thesis by blast
qed

lemma updateRoutingTables_sound:
  assumes wt: "wfTables (nodes w)"
  shows "routesSound (nodes (updateRoutingTables now now' w))"
proof -
  let ?f = "\<lambda>n. (routingTable n, connections n)"
  have m: "map ?f (nodes (updateRoutingTables now now' w)) = map ?f (nodes (rebuildRoutes now w))"
    using updateRoutingTables_nodes [of ?f now now' w]
    by (simp add: markSent_frame updateRoutingState_frame)
  from rebuildRoutes_tableInv [OF wt, of now] obtain K where
    K: "\<forall>n \<in> set (nodes (rebuildRoutes now w)). tableInv K K n" by blast
  have "fst ` set (nextHops (snd se)) \<subseteq> set (connections n)"
    if n: "n \<in> set (nodes (updateRoutingTables now now' w))" and se: "se \<in> set (routingTable n)"
    for n se
  proof -
    from n have "?f n \<in> set (map ?f (nodes (updateRoutingTables now now' w)))" by simp
    then obtain n' where n': "n' \<in> set (nodes (rebuildRoutes now w))" "?f n' = ?f n"
      unfolding m by auto
    with tableInv_sound [of K n' se] K se show ?thesis by auto
  qed
  then show ?thesis unfolding routesSound_def by blast
qed

lemma routesSound_linked:
  assumes "wfLinks ns" and "routesSound ns" and "viaRoute ns m"
  shows "linked ns m"
proof -
  from assms(3) obtain a se where a: "a \<in> set ns" "nodeId a = fromNodeId m"
    "se \<in> set (routingTable a)" "toNodeId m \<in> fst ` set (nextHops (snd se))"
    unfolding viaRoute_def by blast
  with assms(2) have "toNodeId m \<in> set (connections a)" unfolding routesSound_def by blast
  with a(1,2) have "linkOf ns m" unfolding linkOf_def by blast
  with assms(1) show ?thesis by (rule linkOf_linked)
qed

subsection \<open>What the message operations leave unchanged\<close>

lemma foldl_keeps:
  assumes "\<And>v x. g (f v x) = g v"
  shows "g (foldl f w xs) = g w"
  by (induction xs arbitrary: w) (simp_all add: assms)

lemma net_nth:
  assumes "map net ns = map net ns'" and "i < length ns"
  shows "net (ns ! i) = net (ns' ! i)"
  using assms by (metis length_map nth_map)

lemma net_mem:
  assumes "map net ns = map net ns'" and "n \<in> set ns"
  shows "\<exists>n' \<in> set ns'. net n' = net n"
proof -
  from assms(2) have "net n \<in> set (map net ns)" by simp
  then show ?thesis unfolding assms(1) by auto
qed

lemma net_sameGraph: "map net ns = map net ns' \<Longrightarrow> sameGraph ns ns'"
proof -
  assume a: "map net ns = map net ns'"
  have "map (fst \<circ> net) ns = map (fst \<circ> net) ns'" "map (fst \<circ> snd \<circ> net) ns = map (fst \<circ> snd \<circ> net) ns'"
    using a by (metis map_map)+
  then show ?thesis by (simp add: sameGraph_def net_def comp_def)
qed

lemma routesSound_net:
  assumes "map net ns = map net ns'" and "routesSound ns'"
  shows "routesSound ns"
  unfolding routesSound_def
proof (intro ballI)
  fix n se assume n: "n \<in> set ns" and se: "se \<in> set (routingTable n)"
  from net_mem [OF assms(1) n] obtain n' where n': "n' \<in> set ns'" "net n' = net n" by blast
  then have e: "routingTable n = routingTable n'" "connections n = connections n'"
    by (simp_all add: net_def)
  from assms(2) n'(1) se show "fst ` set (nextHops (snd se)) \<subseteq> set (connections n)"
    unfolding routesSound_def e by blast
qed

lemma wfTables_net:
  assumes "map net ns = map net ns'" and "wfTables ns'"
  shows "wfTables ns"
  unfolding wfTables_def
proof (intro ballI)
  fix n assume n: "n \<in> set ns"
  from net_mem [OF assms(1) n] obtain n' where n': "n' \<in> set ns'" "net n' = net n" by blast
  then have e: "routingTable n = routingTable n'" "nodeId n = nodeId n'"
    by (simp_all add: net_def)
  from assms(2) n'(1)
  show "distinct (map fst (routingTable n)) \<and> nodeId n \<notin> fst ` set (routingTable n)"
    unfolding wfTables_def e by blast
qed

lemma linked_linkOf: "linked ns m \<Longrightarrow> linkOf ns m"
  unfolding linked_def linkOf_def by blast

lemma linked_sameGraph:
  assumes "sameGraph ns ns'" and "wfLinks ns" and "linked ns m"
  shows "linked ns' m"
  using linkOf_linked [OF wfLinks_sameGraph [OF assms(1,2)]]
    linkOf_sameGraph [OF assms(1) linked_linkOf [OF assms(3)]] .

lemma addConnection_tables:
  "map routingTable (addConnection i p ns) = map routingTable ns"
  "map nodeId (addConnection i p ns) = map nodeId ns"
  by (simp_all add: addConnection_def map_list_update_frame)

lemma linkPair_tables:
  "map routingTable (linkPair ns ij) = map routingTable ns"
  "map nodeId (linkPair ns ij) = map nodeId ns"
  by (simp_all add: linkPair_def Let_def addConnection_tables)

lemma rebuildLinks_tables:
  "map routingTable (rebuildLinks ns) = map routingTable ns"
  "map nodeId (rebuildLinks ns) = map nodeId ns"
proof -
  have "map routingTable (foldl linkPair xs ps) = map routingTable xs" for xs ps
    by (rule foldl_keeps [where g = "map routingTable"]) (rule linkPair_tables)
  then show "map routingTable (rebuildLinks ns) = map routingTable ns"
    by (simp add: rebuildLinks_def comp_def)
  have "map nodeId (foldl linkPair xs ps) = map nodeId xs" for xs ps
    by (rule foldl_keeps [where g = "map nodeId"]) (rule linkPair_tables)
  then show "map nodeId (rebuildLinks ns) = map nodeId ns"
    by (simp add: rebuildLinks_def comp_def)
qed

lemma flushQueue_tables:
  "map routingTable (nodes (flushQueue now i v)) = map routingTable (nodes v)"
  by (simp add: flushQueue_def Let_def foldl_sendQueued_nodes map_list_update_frame)

lemma replayToSink_nodes: "nodes (replayToSink now i peer v) = nodes v"
proof -
  have "nodes (foldl (\<lambda>w' tid. if c tid then w'\<lparr>messages := messages w' @ [f tid]\<rparr> else w') v xs)
        = nodes v" for c :: "string \<Rightarrow> bool" and f :: "string \<Rightarrow> Message" and xs :: "string list"
    by (rule foldl_keeps [where g = nodes]) simp
  then show ?thesis by (simp add: replayToSink_def Let_def notifyListeners_def)
qed

lemma replayTriage_tables:
  "map routingTable (nodes (replayTriage now i peer rs v tid)) = map routingTable (nodes v)"
  by (simp add: replayTriage_def Let_def map_list_update_frame markSent_frame)

lemma replayGeneral_tables:
  "map routingTable (nodes (replayGeneral now i peer v)) = map routingTable (nodes v)"
proof -
  have "map routingTable (nodes (foldl (replayTriage now i peer rs) v xs))
        = map routingTable (nodes v)" for rs xs
    by (rule foldl_keeps [where g = "\<lambda>v. map routingTable (nodes v)"]) (rule replayTriage_tables)
  then show ?thesis by (simp add: replayGeneral_def Let_def notifyListeners_def)
qed

lemma syncNewLink_tables:
  "map routingTable (nodes (syncNewLink now prev i v peerId)) = map routingTable (nodes v)"
  by (simp add: syncNewLink_def replayToSink_nodes replayGeneral_tables split: option.splits)

lemma processNode_tables:
  "map routingTable (nodes (processNode now pn v i)) = map routingTable (nodes v)"
proof -
  have "map routingTable (nodes (foldl (syncNewLink now prev i) u xs))
        = map routingTable (nodes u)" for prev u xs
    by (rule foldl_keeps [where g = "\<lambda>v. map routingTable (nodes v)"]) (rule syncNewLink_tables)
  then show ?thesis by (simp add: processNode_def Let_def flushQueue_tables)
qed

lemma updateConnections_tables:
  "map routingTable (nodes (updateConnections now w)) = map routingTable (nodes w)"
proof -
  have "map routingTable (nodes (foldl (processNode now pn) u xs))
        = map routingTable (nodes u)" for pn u xs
    by (rule foldl_keeps [where g = "\<lambda>v. map routingTable (nodes v)"]) (rule processNode_tables)
  then show ?thesis by (simp add: updateConnections_def Let_def rebuildLinks_tables)
qed

lemma sendToPeer_net:
  "map net (nodes (sendToPeer now fromId mt tid sev ss v t)) = map net (nodes v)"
  by (simp add: sendToPeer_def Let_def map_updateFirst_frame net_def markSent_frame)

lemma forwardToPeer_net:
  "map net (nodes (forwardToPeer now nid m ss v t)) = map net (nodes v)"
  by (simp add: forwardToPeer_def Let_def map_updateFirst_frame net_def markSent_frame)

lemma sendMessage_net:
  "map net (nodes (sendMessage now newId fromId mt sevArg w)) = map net (nodes w)"
proof -
  have f: "map net (nodes (foldl (sendToPeer now fromId mt' tid sev ss) v ts)) = map net (nodes v)"
    for mt' tid sev ss v ts
    by (rule foldl_keeps [where g = "\<lambda>v. map net (nodes v)"]) (rule sendToPeer_net)
  show ?thesis
    by (simp add: sendMessage_def Let_def notifyListeners_def f map_updateFirst_frame net_def
        split: option.splits)
qed

lemma forwardBlock_net:
  "map net (nodes (forwardBlock now m v)) = map net (nodes v)"
proof -
  have f: "map net (nodes (foldl (forwardToPeer now nid m ss) v ts)) = map net (nodes v)"
    for nid ss v ts
    by (rule foldl_keeps [where g = "\<lambda>v. map net (nodes v)"]) (rule forwardToPeer_net)
  show ?thesis
    by (simp add: forwardBlock_def Let_def notifyListeners_def f split: option.splits)
qed

lemma onMessageArrival_net:
  "map net (nodes (onMessageArrival now m v)) = map net (nodes v)"
  by (simp add: onMessageArrival_def Let_def notifyListeners_def forwardBlock_net
      map_updateFirst_frame net_def split: option.splits)

subsection \<open>New messages on sound routes\<close>

lemma appends_messages:
  "appends P w w' \<Longrightarrow> messages v = messages w \<Longrightarrow> messages v' = messages w'
   \<Longrightarrow> appends P v v'"
  by (simp add: appends_def)

lemma sendMessage_linked:
  assumes wf: "wfLinks (nodes w)" and rs: "routesSound (nodes w)"
  shows "appends (linked (nodes w)) w (sendMessage now newId fromId mt sevArg w)"
proof (cases "getNode fromId (nodes w)")
  case None
  then show ?thesis by (simp add: sendMessage_def appends_refl)
next
  case (Some n)
  show ?thesis
  proof (cases "mode (routingState n) = Intelligent")
    case True
    from sendMessage_ends(2) [OF Some True] show ?thesis
      by (rule appends_mono) (rule routesSound_linked [OF wf rs])
  next
    case False
    from sendMessage_ends(1) [OF Some False] show ?thesis
      by (rule appends_mono) (rule linkOf_linked [OF wf])
  qed
qed

lemma onMessageArrival_linked:
  assumes wf: "wfLinks (nodes w)" and rs: "routesSound (nodes w)"
  shows "appends (linked (nodes w)) w (onMessageArrival now m w)"
proof (cases "getNode (toNodeId m) (nodes w)")
  case None
  then show ?thesis by (simp add: onMessageArrival_def appends_refl)
next
  case (Some n)
  show ?thesis
  proof (cases "mode (routingState n) = Intelligent")
    case True
    from onMessageArrival_ends(2) [OF Some True] show ?thesis
      by (rule appends_mono) (rule routesSound_linked [OF wf rs])
  next
    case False
    from onMessageArrival_ends(1) [OF Some False] show ?thesis
      by (rule appends_mono) (rule linkOf_linked [OF wf])
  qed
qed

lemma syncNewSink_linked:
  assumes wf: "wfLinks (nodes w)" and rs: "routesSound (nodes w)"
  shows "appends (linked (nodes w)) w (syncNewSinkFromExistingSinks now j w)"
  using syncNewSink_via [of w now j]
  by (rule appends_mono) (rule routesSound_linked [OF wf rs])

lemma net_markSent: "net (markSent tid s n) = net n"
  by (simp add: net_def markSent_frame)

lemma rebuildRoutes_messages: "messages (rebuildRoutes now w) = messages w"
proof -
  have "messages (foldl (routeSink now) v ks) = messages v" for v ks
    by (rule foldl_keeps [where g = messages]) (simp add: routeSink_def Let_def)
  then show ?thesis by (simp add: rebuildRoutes_def Let_def)
qed

lemma updateRoutingTables_linked:
  assumes wf: "wfLinks (nodes w)" and wt: "wfTables (nodes w)"
  shows "wfLinks (nodes (updateRoutingTables now now' w))"
    and "routesSound (nodes (updateRoutingTables now now' w))"
    and "appends (linked (nodes (updateRoutingTables now now' w))) w
           (updateRoutingTables now now' w)"
    and "sameGraph (nodes w) (nodes (updateRoutingTables now now' w))"
proof -
  let ?sinks = "sinkIndexes (nodes w)"
  let ?w4 = "updateRoutingStates now' (rebuildRoutes now w)"
  let ?R = "updateRoutingTables now now' w"
  have R: "?R = foldl (syncReachableSink now' ?sinks) ?w4 ?sinks"
    by (simp add: updateRoutingTables_def Let_def)
  have n4: "map net (nodes ?R) = map net (nodes ?w4)"
    unfolding R by (rule foldl_syncReachableSink_frame) (rule net_markSent)
  have "sameGraph (nodes ?w4) (nodes (rebuildRoutes now w))"
    unfolding updateRoutingStates_def
    by (simp add: sameGraph_map updateRoutingState_frame)
  then have "sameGraph (nodes ?w4) (nodes w)"
    using rebuildRoutes_sameGraph sameGraph_trans by blast
  with net_sameGraph [OF n4] show sg: "sameGraph (nodes w) (nodes ?R)"
    using sameGraph_trans sameGraph_sym by blast
  show wfR: "wfLinks (nodes ?R)" using sg wf by (rule wfLinks_sameGraph)
  show rsR: "routesSound (nodes ?R)" using wt by (rule updateRoutingTables_sound)
  have m4: "messages ?w4 = messages w"
    by (simp add: updateRoutingStates_def rebuildRoutes_messages)
  have step: "map net (nodes (syncReachableSink now' ?sinks v p)) = map net (nodes ?R)
              \<and> appends (linked (nodes ?R)) v (syncReachableSink now' ?sinks v p)"
    if I: "map net (nodes v) = map net (nodes ?R)" for v p
  proof -
    have f: "map net (nodes (syncReachableSink now' ?sinks v p)) = map net (nodes v)"
      by (rule syncReachableSink_frame) (rule net_markSent)
    have sgv: "sameGraph (nodes v) (nodes ?R)" using I by (rule net_sameGraph)
    have wfv: "wfLinks (nodes v)"
      using sameGraph_sym [OF sgv] wfR by (rule wfLinks_sameGraph)
    have rsv: "routesSound (nodes v)" using I rsR by (rule routesSound_net)
    have "appends (linked (nodes v)) v (syncNewSinkFromExistingSinks now' p v)"
      using wfv rsv by (rule syncNewSink_linked)
    then have "appends (linked (nodes ?R)) v (syncNewSinkFromExistingSinks now' p v)"
      by (rule appends_mono) (rule linked_sameGraph [OF sgv wfv])
    then have "appends (linked (nodes ?R)) v (syncReachableSink now' ?sinks v p)"
      by (simp add: syncReachableSink_def Let_def appends_refl)
    with f I show ?thesis by simp
  qed
  have "map net (nodes (foldl (syncReachableSink now' ?sinks) ?w4 ?sinks)) = map net (nodes ?R)
        \<and> appends (linked (nodes ?R)) ?w4 (foldl (syncReachableSink now' ?sinks) ?w4 ?sinks)"
    by (rule appends_foldl_inv [where I = "\<lambda>v. map net (nodes v) = map net (nodes ?R)"])
      (use step n4 in auto)
  then have "appends (linked (nodes ?R)) ?w4 ?R" unfolding R [symmetric] by simp
  then show "appends (linked (nodes ?R)) w ?R"
    by (rule appends_messages) (simp_all add: m4)
qed

lemma updateRoutingTables_wfTables:
  assumes wt: "wfTables (nodes w)"
  shows "wfTables (nodes (updateRoutingTables now now' w))"
proof -
  let ?f = "\<lambda>n. (routingTable n, nodeId n)"
  have m: "map ?f (nodes (updateRoutingTables now now' w)) = map ?f (nodes (rebuildRoutes now w))"
    using updateRoutingTables_nodes [of ?f now now' w]
    by (simp add: markSent_frame updateRoutingState_frame)
  from rebuildRoutes_tableInv [OF wt, of now] obtain K where
    K: "\<forall>n \<in> set (nodes (rebuildRoutes now w)). tableInv K K n" by blast
  have "distinct (map fst (routingTable n)) \<and> nodeId n \<notin> fst ` set (routingTable n)"
    if n: "n \<in> set (nodes (updateRoutingTables now now' w))" for n
  proof -
    from n have "?f n \<in> set (map ?f (nodes (updateRoutingTables now now' w)))" by simp
    then obtain n' where n': "n' \<in> set (nodes (rebuildRoutes now w))" "?f n' = ?f n"
      unfolding m by auto
    then have e: "routingTable n = routingTable n'" "nodeId n = nodeId n'" by simp_all
    from K n'(1) have "tableInv K K n'" by blast
    then show ?thesis unfolding e tableInv_def by (simp add: dom_map_of_conv_image_fst)
  qed
  then show ?thesis unfolding wfTables_def by blast
qed

lemma appends_conj:
  assumes "appends P w w'" and "appends Q w w'"
  shows "appends (\<lambda>m. P m \<and> Q m) w w'"
proof -
  from assms obtain new new' where
    "messages w' = messages w @ new" "\<forall>m \<in> set new. P m"
    "messages w' = messages w @ new'" "\<forall>m \<in> set new'. Q m"
    unfolding appends_def by blast
  then show ?thesis unfolding appends_def by auto
qed

lemma advanceMessage_linked:
  assumes msgs: "messages w = map (advanced dt) pre @ m # post @ em"
    and I: "map net (nodes w) = map net ns0"
    and wf0: "wfLinks ns0" and rs0: "routesSound ns0"
  shows "\<exists>em'. messages (advanceMessage dt now w (length pre))
                 = map (advanced dt) (pre @ [m]) @ post @ em @ em'
              \<and> (\<forall>x \<in> set em'. fresh ns0 x)
              \<and> map net (nodes (advanceMessage dt now w (length pre))) = map net ns0"
proof -
  have at: "messages w ! length pre = m"
    using msgs by (simp add: nth_append)
  have upd: "(messages w)[length pre := advanced dt m]
             = map (advanced dt) (pre @ [m]) @ post @ em"
    using msgs by (simp add: list_update_append)
  let ?w1 = "w\<lparr>messages := (messages w)[length pre := advanced dt m]\<rparr>"
  have sg: "sameGraph (nodes w) ns0" using I by (rule net_sameGraph)
  have wf: "wfLinks (nodes ?w1)"
    using wfLinks_sameGraph [OF sameGraph_sym [OF sg] wf0] by simp
  have rs: "routesSound (nodes ?w1)" using routesSound_net [OF I rs0] by simp
  show ?thesis
  proof (cases "crosses dt m")
    case True
    then have w: "advanceMessage dt now w (length pre) = onMessageArrival now (advanced dt m) ?w1"
      by (simp add: advanceMessage_def Let_def at crosses_def advanced_def)
    have "appends (linked (nodes ?w1)) ?w1 (onMessageArrival now (advanced dt m) ?w1)"
      using wf rs by (rule onMessageArrival_linked)
    then have "appends (linked ns0) ?w1 (onMessageArrival now (advanced dt m) ?w1)"
      by (rule appends_mono) (use linked_sameGraph [OF sg] wf in simp)
    moreover have "appends (\<lambda>x. progress x = 0) ?w1 (onMessageArrival now (advanced dt m) ?w1)"
      using onMessageArrival_appends [of now "advanced dt m" ?w1] unfolding appends_def by blast
    ultimately have "appends (fresh ns0) ?w1 (onMessageArrival now (advanced dt m) ?w1)"
      unfolding fresh_def by (rule appends_conj)
    then obtain em' where
      "messages (onMessageArrival now (advanced dt m) ?w1) = messages ?w1 @ em'"
      "\<forall>x \<in> set em'. fresh ns0 x" unfolding appends_def by blast
    moreover have "map net (nodes (onMessageArrival now (advanced dt m) ?w1)) = map net ns0"
      using I by (simp add: onMessageArrival_net)
    ultimately show ?thesis
      using upd w by (intro exI [of _ em']) simp
  next
    case False
    then have w: "advanceMessage dt now w (length pre) = ?w1"
      by (auto simp: advanceMessage_def Let_def at crosses_def advanced_def)
    show ?thesis
      using upd w I by (intro exI [of _ "[]"]) simp
  qed
qed

lemma advance_fold_linked:
  assumes "messages w = map (advanced dt) pre @ post @ em"
    and "\<forall>x \<in> set em. fresh ns0 x"
    and "map net (nodes w) = map net ns0"
    and wf0: "wfLinks ns0" and rs0: "routesSound ns0"
  shows "\<exists>em'. messages (foldl (advanceMessage dt now) w
                                [length pre ..< length pre + length post])
                 = map (advanced dt) (pre @ post) @ em'
              \<and> (\<forall>x \<in> set em'. fresh ns0 x)
              \<and> map net (nodes (foldl (advanceMessage dt now) w
                                [length pre ..< length pre + length post])) = map net ns0"
  using assms(1,2,3)
proof (induction post arbitrary: pre w em)
  case Nil
  then show ?case by simp
next
  case (Cons m post)
  let ?r = "advanceMessage dt now w (length pre)"
  have p: "messages w = map (advanced dt) pre @ m # post @ em"
    using Cons.prems(1) by simp
  from advanceMessage_linked [OF p Cons.prems(3) wf0 rs0, of now] obtain em' where
    s1: "messages ?r = map (advanced dt) (pre @ [m]) @ post @ (em @ em')"
    and s2: "\<forall>x \<in> set em'. fresh ns0 x"
    and s3: "map net (nodes ?r) = map net ns0"
    by auto
  have z: "\<forall>x \<in> set (em @ em'). fresh ns0 x"
    using Cons.prems(2) s2 by auto
  define R where "R = foldl (advanceMessage dt now) ?r
            [length (pre @ [m]) ..< length (pre @ [m]) + length post]"
  from Cons.IH [OF s1 z s3] obtain em'' where
    t1: "messages R = map (advanced dt) ((pre @ [m]) @ post) @ em''"
    and t2: "\<forall>x \<in> set em''. fresh ns0 x"
    and t3: "map net (nodes R) = map net ns0"
    unfolding R_def by blast
  have u: "[length pre ..< length pre + length (m # post)]
           = length pre # [length (pre @ [m]) ..< length (pre @ [m]) + length post]"
    using upt_conv_Cons [of "length pre" "length pre + length (m # post)"] by simp
  have fold: "foldl (advanceMessage dt now) w [length pre ..< length pre + length (m # post)]
              = R"
    unfolding u R_def by simp
  have g1: "messages R = map (advanced dt) (pre @ m # post) @ em''"
    using t1 by simp
  show ?case
    unfolding fold using g1 t2 t3 by blast
qed

lemma updateMessages_linked:
  assumes wf: "wfLinks (nodes w)" and rs: "routesSound (nodes w)"
  shows "\<exists>em. messages (updateMessages dt now w)
               = filter (\<lambda>m. progress m < 1) (map (advanced dt) (messages w)) @ em
            \<and> (\<forall>x \<in> set em. fresh (nodes w) x)
            \<and> map net (nodes (updateMessages dt now w)) = map net (nodes w)"
proof -
  from advance_fold_linked [of w dt "[]" "messages w" "[]" "nodes w" now, OF _ _ _ wf rs]
  obtain em where
    a: "messages (advanceAll dt now w) = map (advanced dt) (messages w) @ em"
    and b: "\<forall>x \<in> set em. fresh (nodes w) x"
    and c: "map net (nodes (advanceAll dt now w)) = map net (nodes w)"
    unfolding advanceAll_def by auto
  have f: "filter (\<lambda>m. progress m < 1) em = em"
    using b by (intro filter_True) (auto simp: fresh_def)
  show ?thesis
    using a b c f by (intro exI [of _ em]) (simp add: updateMessages_def Let_def)
qed

lemma wfTables_cong:
  assumes i: "map nodeId ns = map nodeId ns'" and t: "map routingTable ns = map routingTable ns'"
    and w: "wfTables ns'"
  shows "wfTables ns"
  unfolding wfTables_def
proof (intro ballI)
  fix n assume "n \<in> set ns"
  then obtain k where k: "k < length ns" "ns ! k = n" by (auto simp: in_set_conv_nth)
  have l: "length ns' = length ns" using i by (metis length_map)
  have e: "nodeId n = nodeId (ns' ! k)" "routingTable n = routingTable (ns' ! k)"
    using i t k l by (metis nth_map)+
  have "ns' ! k \<in> set ns'" using k l by simp
  with w show "distinct (map fst (routingTable n)) \<and> nodeId n \<notin> fst ` set (routingTable n)"
    unfolding wfTables_def e by blast
qed

lemma updateAutoGeneration_linked:
  assumes wf: "wfLinks (nodes w)" and rs: "routesSound (nodes w)"
  shows "appends (linked (nodes w)) w (updateAutoGeneration now newId r1 r2 w)"
    and "map net (nodes (updateAutoGeneration now newId r1 r2 w)) = map net (nodes w)"
proof -
  let ?src = "filter (\<lambda>n. nodeType n = Source \<and> length (connections n) > 0) (nodes w)"
  define w1 where "w1 = (if length ?src > 0
                      then sendMessage now newId
                             (nodeId (?src ! nat \<lfloor>r1 * real (length ?src)\<rfloor>))
                             Triage (Some ([Black, Green, Yellow, Red] ! nat \<lfloor>r2 * 4\<rfloor>)) w
                      else w)"
  have u: "updateAutoGeneration now newId r1 r2 w
           = (if real_of_int (now - lastTriageGeneration w) \<ge> triageGenerationInterval w
              then w1\<lparr>lastTriageGeneration := now\<rparr> else w)"
    unfolding updateAutoGeneration_def Let_def w1_def ..
  have a: "appends (linked (nodes w)) w (sendMessage now newId f mt sv w)" for f mt sv
    using wf rs by (rule sendMessage_linked)
  have a1: "appends (linked (nodes w)) w w1"
    unfolding w1_def using a by (cases "length ?src > 0") (simp_all only: if_True if_False appends_refl)
  have n1: "map net (nodes w1) = map net (nodes w)"
    unfolding w1_def by (cases "length ?src > 0") (simp_all only: if_True if_False sendMessage_net)
  show "appends (linked (nodes w)) w (updateAutoGeneration now newId r1 r2 w)"
    unfolding u using a1 by (simp add: appends_def)
  show "map net (nodes (updateAutoGeneration now newId r1 r2 w)) = map net (nodes w)"
    unfolding u using n1 by simp
qed

lemma tickBeforeAdvance_linked:
  assumes d: "distinct (map nodeId (nodes w))" and wt: "wfTables (nodes w)"
  shows "wfLinks (nodes (tickBeforeAdvance dt now newId r1 r2 w))"
    and "routesSound (nodes (tickBeforeAdvance dt now newId r1 r2 w))"
    and "wfTables (nodes (tickBeforeAdvance dt now newId r1 r2 w))"
    and "appends (linked (nodes (tickBeforeAdvance dt now newId r1 r2 w))) w
           (tickBeforeAdvance dt now newId r1 r2 w)"
proof -
  define w1 where "w1 = moveNodes dt w"
  define w2 where "w2 = updateConnections now w1"
  define w3 where "w3 = updateRoutingTables now now w2"
  define w5 where "w5 = tickBeforeAdvance dt now newId r1 r2 w"
  have e5: "w5 = (if isAutoGenerating w3 then updateAutoGeneration now newId r1 r2 w3 else w3)"
    unfolding w5_def w3_def w2_def w1_def tickBeforeAdvance_def Let_def ..
  have i1: "map nodeId (nodes w1) = map nodeId (nodes w)"
    and t1: "map routingTable (nodes w1) = map routingTable (nodes w)"
    and m1: "messages w1 = messages w"
    unfolding w1_def by (simp_all add: moveNodes_def comp_def)
  have d1: "distinct (map nodeId (nodes w1))" unfolding i1 by (rule d)
  have uc: "wfLinks (nodes w2)" "map nodeId (nodes w2) = map nodeId (nodes w1)"
    "appends (linked (nodes w2)) w1 w2"
    unfolding w2_def by (rule updateConnections_link [OF d1])+
  have t2: "map routingTable (nodes w2) = map routingTable (nodes w)"
    unfolding w2_def updateConnections_tables t1 ..
  have i2: "map nodeId (nodes w2) = map nodeId (nodes w)" unfolding uc(2) i1 ..
  have wt2: "wfTables (nodes w2)" using i2 t2 wt by (rule wfTables_cong)
  have ur: "wfLinks (nodes w3)" "routesSound (nodes w3)" "appends (linked (nodes w3)) w2 w3"
    "sameGraph (nodes w2) (nodes w3)"
    unfolding w3_def by (rule updateRoutingTables_linked [OF uc(1) wt2])+
  have wt3: "wfTables (nodes w3)" unfolding w3_def using wt2 by (rule updateRoutingTables_wfTables)
  have n5: "map net (nodes w5) = map net (nodes w3)"
  proof (cases "isAutoGenerating w3")
    case True
    then show ?thesis unfolding e5 using updateAutoGeneration_linked(2) [OF ur(1,2)]
      by (simp only: if_True)
  next
    case False
    then show ?thesis unfolding e5 by (simp only: if_False)
  qed
  have sg53: "sameGraph (nodes w5) (nodes w3)" using n5 by (rule net_sameGraph)
  have wf5: "wfLinks (nodes w5)"
    using sameGraph_sym [OF sg53] ur(1) by (rule wfLinks_sameGraph)
  have rs5: "routesSound (nodes w5)" using n5 ur(2) by (rule routesSound_net)
  have wt5: "wfTables (nodes w5)" using n5 wt3 by (rule wfTables_net)
  have l23: "linked (nodes w3) m" if "linked (nodes w2) m" for m
    using ur(4) uc(1) that by (rule linked_sameGraph)
  have l35: "linked (nodes w5) m" if "linked (nodes w3) m" for m
    using sameGraph_sym [OF sg53] ur(1) that by (rule linked_sameGraph)
  have l25: "linked (nodes w5) m" if "linked (nodes w2) m" for m
    using l35 [OF l23 [OF that]] .
  have "appends (linked (nodes w5)) w1 w2" using uc(3) by (rule appends_mono) (rule l25)
  then have a12: "appends (linked (nodes w5)) w w2"
    by (rule appends_messages) (simp_all only: m1)
  have a23: "appends (linked (nodes w5)) w2 w3" using ur(3) by (rule appends_mono) (rule l35)
  have a35: "appends (linked (nodes w5)) w3 w5"
  proof (cases "isAutoGenerating w3")
    case True
    have "appends (linked (nodes w3)) w3 (updateAutoGeneration now newId r1 r2 w3)"
      using ur(1,2) by (rule updateAutoGeneration_linked(1))
    then have "appends (linked (nodes w5)) w3 (updateAutoGeneration now newId r1 r2 w3)"
      by (rule appends_mono) (rule l35)
    moreover have "w5 = updateAutoGeneration now newId r1 r2 w3"
      using True unfolding e5 by (simp only: if_True)
    ultimately show ?thesis by simp
  next
    case False
    then have "w5 = w3" unfolding e5 by (simp only: if_False)
    then show ?thesis by (simp add: appends_refl)
  qed
  have a: "appends (linked (nodes w5)) w w5"
    using appends_trans [OF appends_trans [OF a12 a23] a35] .
  show "wfLinks (nodes (tickBeforeAdvance dt now newId r1 r2 w))" using wf5 unfolding w5_def .
  show "routesSound (nodes (tickBeforeAdvance dt now newId r1 r2 w))" using rs5 unfolding w5_def .
  show "wfTables (nodes (tickBeforeAdvance dt now newId r1 r2 w))" using wt5 unfolding w5_def .
  show "appends (linked (nodes (tickBeforeAdvance dt now newId r1 r2 w))) w
           (tickBeforeAdvance dt now newId r1 r2 w)" using a unfolding w5_def .
qed

lemma tick_linked:
  assumes d: "distinct (map nodeId (nodes w))" and wt: "wfTables (nodes w)"
  shows "\<exists>new1 new2.
           messages (tick dt now newId r1 r2 w)
             = filter (\<lambda>m. progress m < 1) (map (advanced dt) (messages w @ new1)) @ new2
         \<and> (\<forall>m \<in> set (new1 @ new2). linked (nodes (tick dt now newId r1 r2 w)) m)"
    and "wfLinks (nodes (tick dt now newId r1 r2 w))"
    and "wfTables (nodes (tick dt now newId r1 r2 w))"
    and "routesSound (nodes (tick dt now newId r1 r2 w))"
proof -
  define w5 where "w5 = tickBeforeAdvance dt now newId r1 r2 w"
  define w6 where "w6 = updateMessages dt now w5"
  define T where "T = tick dt now newId r1 r2 w"
  have b: "wfLinks (nodes w5)" "routesSound (nodes w5)" "wfTables (nodes w5)"
    "appends (linked (nodes w5)) w w5"
    unfolding w5_def by (rule tickBeforeAdvance_linked [OF d wt])+
  from updateMessages_linked [OF b(1,2), of dt now] obtain em where
    em: "messages w6 = filter (\<lambda>m. progress m < 1) (map (advanced dt) (messages w5)) @ em"
    "\<forall>x \<in> set em. fresh (nodes w5) x"
    "map net (nodes w6) = map net (nodes w5)"
    unfolding w6_def by blast
  from b(4) obtain new1 where
    n1: "messages w5 = messages w @ new1" "\<forall>m \<in> set new1. linked (nodes w5) m"
    unfolding appends_def by blast
  have Tm: "messages T = messages w6" and Tn: "nodes T = nodes w6"
    unfolding T_def w6_def w5_def by (simp_all add: tick_def notifyListeners_def)
  have nT: "map net (nodes T) = map net (nodes w5)" unfolding Tn using em(3) .
  have sg: "sameGraph (nodes w5) (nodes T)"
    using net_sameGraph [OF nT] by (rule sameGraph_sym)
  have l: "linked (nodes T) m" if "linked (nodes w5) m" for m
    using sg b(1) that by (rule linked_sameGraph)
  have 1: "wfLinks (nodes T)" using sg b(1) by (rule wfLinks_sameGraph)
  have 2: "wfTables (nodes T)" using nT b(3) by (rule wfTables_net)
  have 3: "routesSound (nodes T)" using nT b(2) by (rule routesSound_net)
  have 4: "messages T
        = filter (\<lambda>m. progress m < 1) (map (advanced dt) (messages w @ new1)) @ em"
    unfolding Tm em(1) n1(1) ..
  have "linked (nodes T) m" if "m \<in> set (new1 @ em)" for m
  proof -
    from that have "m \<in> set new1 \<or> m \<in> set em" by simp
    then have "linked (nodes w5) m" using n1(2) em(2) unfolding fresh_def by blast
    then show ?thesis by (rule l)
  qed
  with 4 have 5: "\<exists>new1 new2.
           messages T
             = filter (\<lambda>m. progress m < 1) (map (advanced dt) (messages w @ new1)) @ new2
         \<and> (\<forall>m \<in> set (new1 @ new2). linked (nodes T) m)"
    by blast
  show "\<exists>new1 new2.
           messages (tick dt now newId r1 r2 w)
             = filter (\<lambda>m. progress m < 1) (map (advanced dt) (messages w @ new1)) @ new2
         \<and> (\<forall>m \<in> set (new1 @ new2). linked (nodes (tick dt now newId r1 r2 w)) m)"
    using 5 unfolding T_def .
  show "wfLinks (nodes (tick dt now newId r1 r2 w))" using 1 unfolding T_def .
  show "wfTables (nodes (tick dt now newId r1 r2 w))" using 2 unfolding T_def .
  show "routesSound (nodes (tick dt now newId r1 r2 w))" using 3 unfolding T_def .
qed

subsection \<open>The claim about the endpoints\<close>

text \<open>
  C5, as stated, fails for a send in intelligent mode: the targets are read from the routing
  table, which \<open>removeNode\<close> does not touch. In \<open>staleWorld\<close> the node \<open>B\<close> has the single
  neighbor \<open>A\<close>, and its triage goes to the removed node \<open>C\<close>.
\<close>

theorem send_over_stale_route_counterexample:
  "map nodeId (nodes staleWorld) = [''A'', ''B'']
   \<and> map connections (nodes staleWorld) = [[''B''], [''A'']]
   \<and> map (\<lambda>n. mode (routingState n)) (nodes staleWorld) = [Intelligent, Intelligent]
   \<and> map (\<lambda>m. (fromNodeId m, toNodeId m))
        (messages (sendMessage 11 ''t1'' ''B'' Triage (Some Red) staleWorld)) = [(''B'', ''C'')]
   \<and> \<not> appends (linked (nodes staleWorld)) staleWorld
          (sendMessage 11 ''t1'' ''B'' Triage (Some Red) staleWorld)"
proof -
  let ?w' = "sendMessage 11 ''t1'' ''B'' Triage (Some Red) staleWorld"
  have a: "map nodeId (nodes staleWorld) = [''A'', ''B'']"
    "map connections (nodes staleWorld) = [[''B''], [''A'']]"
    "map (\<lambda>n. mode (routingState n)) (nodes staleWorld) = [Intelligent, Intelligent]"
    "messages staleWorld = []"
    by code_simp+
  have b: "map (\<lambda>m. (fromNodeId m, toNodeId m)) (messages ?w') = [(''B'', ''C'')]"
    by code_simp
  have "\<not> appends (linked (nodes staleWorld)) staleWorld ?w'"
  proof
    assume "appends (linked (nodes staleWorld)) staleWorld ?w'"
    then have l: "\<forall>m \<in> set (messages ?w'). linked (nodes staleWorld) m"
      unfolding appends_def a(4) by auto
    from b obtain m where m: "m \<in> set (messages ?w')" "toNodeId m = ''C''"
      by (cases "messages ?w'") auto
    with l have "linked (nodes staleWorld) m" by blast
    then have "''C'' \<in> set (map nodeId (nodes staleWorld))"
      unfolding linked_def m(2) [symmetric] by force
    then show False unfolding a(1) by simp
  qed
  with a b show ?thesis by simp
qed

text \<open>
  C5, amended. The messages that \<open>updateConnections\<close> appends (queue flush and new-link
  replay) go between two nodes that are linked, each in the other's connections, in the
  links just rebuilt. On symmetric links, so do the messages of a send or of a forward by a
  node that is not in intelligent mode. The messages of a send or of a forward by a node in
  intelligent mode, and those of new-sink replay, go from a node to a next hop listed in
  its routing table; they go between linked nodes when every next hop of every table is a
  neighbor (\<open>routesSound\<close>), which is what a routing pass establishes. Hence every message
  that a tick creates, in any of its phases, goes between nodes that are linked at the end
  of the tick (the links and the tables do not change once the routing pass is done), and
  the tick keeps the ids distinct and the tables well formed.
\<close>

theorem new_messages_follow_links_or_routes:
  "(distinct (map nodeId (nodes w))
      \<longrightarrow> appends (linked (nodes (updateConnections now w))) w (updateConnections now w))
   \<and> (wfLinks (nodes w) \<and> getNode fromId (nodes w) = Some n
        \<and> (mode (routingState n) \<noteq> Intelligent \<or> routesSound (nodes w))
      \<longrightarrow> appends (linked (nodes w)) w (sendMessage now newId fromId mt sevArg w))
   \<and> (getNode fromId (nodes w) = Some n \<and> mode (routingState n) = Intelligent
      \<longrightarrow> appends (viaRoute (nodes w)) w (sendMessage now newId fromId mt sevArg w))
   \<and> (wfLinks (nodes w) \<and> getNode (toNodeId m) (nodes w) = Some r
        \<and> (mode (routingState r) \<noteq> Intelligent \<or> routesSound (nodes w))
      \<longrightarrow> appends (linked (nodes w)) w (onMessageArrival now m w))
   \<and> (getNode (toNodeId m) (nodes w) = Some r \<and> mode (routingState r) = Intelligent
      \<longrightarrow> appends (viaRoute (nodes w)) w (onMessageArrival now m w))
   \<and> appends (viaRoute (nodes w)) w (syncNewSinkFromExistingSinks now j w)
   \<and> (wfLinks (nodes w) \<and> routesSound (nodes w)
      \<longrightarrow> appends (linked (nodes w)) w (syncNewSinkFromExistingSinks now j w))
   \<and> (wfLinks (nodes w) \<and> wfTables (nodes w)
      \<longrightarrow> routesSound (nodes (updateRoutingTables now now' w))
          \<and> appends (linked (nodes (updateRoutingTables now now' w))) w
                (updateRoutingTables now now' w))
   \<and> (distinct (map nodeId (nodes w)) \<and> wfTables (nodes w)
      \<longrightarrow> (\<exists>new1 new2.
             messages (tick dt now newId r1 r2 w)
               = filter (\<lambda>m. progress m < 1) (map (advanced dt) (messages w @ new1)) @ new2
             \<and> (\<forall>m \<in> set (new1 @ new2). linked (nodes (tick dt now newId r1 r2 w)) m))
          \<and> distinct (map nodeId (nodes (tick dt now newId r1 r2 w)))
          \<and> wfTables (nodes (tick dt now newId r1 r2 w)))"
proof -
  have l: "appends (linked (nodes w)) w w'"
    if "wfLinks (nodes w)" "appends (linkOf (nodes w)) w w'" for w'
    using that(2) by (rule appends_mono) (rule linkOf_linked [OF that(1)])
  have 1: "appends (linked (nodes (updateConnections now w))) w (updateConnections now w)"
    if "distinct (map nodeId (nodes w))"
    using that by (rule updateConnections_link(3))
  have 2: "appends (linked (nodes w)) w (sendMessage now newId fromId mt sevArg w)"
    if "wfLinks (nodes w)" "getNode fromId (nodes w) = Some n"
      "mode (routingState n) \<noteq> Intelligent \<or> routesSound (nodes w)"
  proof (cases "mode (routingState n) = Intelligent")
    case True
    with that(3) have "routesSound (nodes w)" by simp
    with that(1) show ?thesis by (rule sendMessage_linked)
  next
    case False
    from that(1) sendMessage_ends(1) [OF that(2) False] show ?thesis by (rule l)
  qed
  have 3: "appends (linked (nodes w)) w (onMessageArrival now m w)"
    if "wfLinks (nodes w)" "getNode (toNodeId m) (nodes w) = Some r"
      "mode (routingState r) \<noteq> Intelligent \<or> routesSound (nodes w)"
  proof (cases "mode (routingState r) = Intelligent")
    case True
    with that(3) have "routesSound (nodes w)" by simp
    with that(1) show ?thesis by (rule onMessageArrival_linked)
  next
    case False
    from that(1) onMessageArrival_ends(1) [OF that(2) False] show ?thesis by (rule l)
  qed
  have 4: "distinct (map nodeId (nodes (tick dt now newId r1 r2 w)))"
    if "distinct (map nodeId (nodes w))" "wfTables (nodes w)"
    using tick_linked(2) [OF that] by (simp add: wfLinks_def)
  have c1: "distinct (map nodeId (nodes w))
      \<longrightarrow> appends (linked (nodes (updateConnections now w))) w (updateConnections now w)"
    using 1 by (rule impI)
  have c2: "wfLinks (nodes w) \<and> getNode fromId (nodes w) = Some n
        \<and> (mode (routingState n) \<noteq> Intelligent \<or> routesSound (nodes w))
      \<longrightarrow> appends (linked (nodes w)) w (sendMessage now newId fromId mt sevArg w)"
    using 2 by blast
  have c3: "getNode fromId (nodes w) = Some n \<and> mode (routingState n) = Intelligent
      \<longrightarrow> appends (viaRoute (nodes w)) w (sendMessage now newId fromId mt sevArg w)"
    using sendMessage_ends(2) [of fromId w n] by blast
  have c4: "wfLinks (nodes w) \<and> getNode (toNodeId m) (nodes w) = Some r
        \<and> (mode (routingState r) \<noteq> Intelligent \<or> routesSound (nodes w))
      \<longrightarrow> appends (linked (nodes w)) w (onMessageArrival now m w)"
    using 3 by blast
  have c5: "getNode (toNodeId m) (nodes w) = Some r \<and> mode (routingState r) = Intelligent
      \<longrightarrow> appends (viaRoute (nodes w)) w (onMessageArrival now m w)"
    using onMessageArrival_ends(2) [of m w r] by blast
  have c6: "appends (viaRoute (nodes w)) w (syncNewSinkFromExistingSinks now j w)"
    by (rule syncNewSink_via)
  have c7: "wfLinks (nodes w) \<and> routesSound (nodes w)
      \<longrightarrow> appends (linked (nodes w)) w (syncNewSinkFromExistingSinks now j w)"
    using syncNewSink_linked [of w now j] by blast
  have c8: "wfLinks (nodes w) \<and> wfTables (nodes w)
      \<longrightarrow> routesSound (nodes (updateRoutingTables now now' w))
          \<and> appends (linked (nodes (updateRoutingTables now now' w))) w
                (updateRoutingTables now now' w)"
    using updateRoutingTables_linked(2,3) [of w now now'] by blast
  have c9: "distinct (map nodeId (nodes w)) \<and> wfTables (nodes w)
      \<longrightarrow> (\<exists>new1 new2.
             messages (tick dt now newId r1 r2 w)
               = filter (\<lambda>m. progress m < 1) (map (advanced dt) (messages w @ new1)) @ new2
             \<and> (\<forall>m \<in> set (new1 @ new2). linked (nodes (tick dt now newId r1 r2 w)) m))
          \<and> distinct (map nodeId (nodes (tick dt now newId r1 r2 w)))
          \<and> wfTables (nodes (tick dt now newId r1 r2 w))"
  proof (intro impI conjI)
    assume a: "distinct (map nodeId (nodes w)) \<and> wfTables (nodes w)"
    then have d: "distinct (map nodeId (nodes w))" and t: "wfTables (nodes w)" by simp_all
    from tick_linked(1) [OF d t]
    show "\<exists>new1 new2.
             messages (tick dt now newId r1 r2 w)
               = filter (\<lambda>m. progress m < 1) (map (advanced dt) (messages w @ new1)) @ new2
             \<and> (\<forall>m \<in> set (new1 @ new2). linked (nodes (tick dt now newId r1 r2 w)) m)" .
    from 4 [OF d t] show "distinct (map nodeId (nodes (tick dt now newId r1 r2 w)))" .
    from tick_linked(3) [OF d t] show "wfTables (nodes (tick dt now newId r1 r2 w))" .
  qed
  from c1 c2 c3 c4 c5 c6 c7 c8 c9 show ?thesis by (intro conjI)
qed

lemma ex_sets:
  "wfLinks (nodes floodedWorld)" "messages floodedWorld = []"
  "getNode ''B'' (nodes floodedWorld) = Some (nodes floodedWorld ! 1)"
  "mode (routingState (nodes floodedWorld ! 1)) = Flooding"
  "wfLinks (nodes routedWorld)" "routesSound (nodes routedWorld)" "messages routedWorld = []"
  "getNode ''B'' (nodes routedWorld) = Some (nodes routedWorld ! 1)"
  "mode (routingState (nodes routedWorld ! 1)) = Intelligent"
  "wfLinks (nodes sinkPairRoutes)" "routesSound (nodes sinkPairRoutes)"
  "messages sinkPairRoutes = []"
  "wfLinks (nodes sinkPair)" "wfTables (nodes sinkPair)" "messages sinkPair = []"
  "distinct (map nodeId (nodes lineWorld))" "wfTables (nodes lineWorld)"
  by code_simp+

lemma ex_ends:
  "map (\<lambda>m. (fromNodeId m, toNodeId m))
        (messages (sendMessage 11 ''t1'' ''B'' Triage (Some Red) floodedWorld))
   = [(''B'', ''A''), (''B'', ''C'')]"
  "map (\<lambda>m. (fromNodeId m, toNodeId m))
        (messages (onMessageArrival 11 triageT2 floodedWorld)) = [(''B'', ''C'')]"
  "map (\<lambda>m. (fromNodeId m, toNodeId m))
        (messages (sendMessage 11 ''t1'' ''B'' Triage (Some Red) routedWorld)) = [(''B'', ''C'')]"
  "map (\<lambda>m. (fromNodeId m, toNodeId m))
        (messages (onMessageArrival 11 triageT2 routedWorld)) = [(''B'', ''C'')]"
  "map (\<lambda>m. (fromNodeId m, toNodeId m))
        (messages (syncNewSinkFromExistingSinks 11 1 sinkPairRoutes)) = [(''S1'', ''S2'')]"
  "map (\<lambda>m. (fromNodeId m, toNodeId m))
        (messages (updateRoutingTables 10 10 sinkPair)) = [(''S1'', ''S2'')]"
  by code_simp+

theorem new_messages_follow_links_or_routes_witness:
  "distinct (map nodeId (nodes lineWorld)) \<and> wfTables (nodes lineWorld)
   \<and> list_all (linked (nodes (updateConnections 11 lineWorld)))
        (drop (length (messages lineWorld)) (messages (updateConnections 11 lineWorld)))
   \<and> (\<exists>new1 new2.
         messages (tick 1 11 ''t1'' 0 0 lineWorld)
           = filter (\<lambda>m. progress m < 1) (map (advanced 1) (messages lineWorld @ new1)) @ new2
         \<and> list_all (linked (nodes (tick 1 11 ''t1'' 0 0 lineWorld))) (new1 @ new2))
   \<and> wfTables (nodes (tick 1 11 ''t1'' 0 0 lineWorld))
   \<and> wfLinks (nodes floodedWorld)
   \<and> map_option (\<lambda>n. mode (routingState n)) (getNode ''B'' (nodes floodedWorld)) = Some Flooding
   \<and> map (\<lambda>m. (fromNodeId m, toNodeId m))
        (messages (sendMessage 11 ''t1'' ''B'' Triage (Some Red) floodedWorld))
      = [(''B'', ''A''), (''B'', ''C'')]
   \<and> list_all (linked (nodes floodedWorld))
        (messages (sendMessage 11 ''t1'' ''B'' Triage (Some Red) floodedWorld))
   \<and> map (\<lambda>m. (fromNodeId m, toNodeId m))
        (messages (onMessageArrival 11 triageT2 floodedWorld)) = [(''B'', ''C'')]
   \<and> list_all (linked (nodes floodedWorld)) (messages (onMessageArrival 11 triageT2 floodedWorld))
   \<and> wfLinks (nodes routedWorld) \<and> routesSound (nodes routedWorld)
   \<and> map_option (\<lambda>n. mode (routingState n)) (getNode ''B'' (nodes routedWorld))
      = Some Intelligent
   \<and> map (\<lambda>m. (fromNodeId m, toNodeId m))
        (messages (sendMessage 11 ''t1'' ''B'' Triage (Some Red) routedWorld)) = [(''B'', ''C'')]
   \<and> list_all (\<lambda>m. viaRoute (nodes routedWorld) m \<and> linked (nodes routedWorld) m)
        (messages (sendMessage 11 ''t1'' ''B'' Triage (Some Red) routedWorld))
   \<and> map (\<lambda>m. (fromNodeId m, toNodeId m))
        (messages (onMessageArrival 11 triageT2 routedWorld)) = [(''B'', ''C'')]
   \<and> list_all (\<lambda>m. viaRoute (nodes routedWorld) m \<and> linked (nodes routedWorld) m)
        (messages (onMessageArrival 11 triageT2 routedWorld))
   \<and> wfLinks (nodes sinkPairRoutes) \<and> routesSound (nodes sinkPairRoutes)
   \<and> map (\<lambda>m. (fromNodeId m, toNodeId m))
        (messages (syncNewSinkFromExistingSinks 11 1 sinkPairRoutes)) = [(''S1'', ''S2'')]
   \<and> list_all (\<lambda>m. viaRoute (nodes sinkPairRoutes) m \<and> linked (nodes sinkPairRoutes) m)
        (messages (syncNewSinkFromExistingSinks 11 1 sinkPairRoutes))
   \<and> wfLinks (nodes sinkPair) \<and> wfTables (nodes sinkPair)
   \<and> routesSound (nodes (updateRoutingTables 10 10 sinkPair))
   \<and> map (\<lambda>m. (fromNodeId m, toNodeId m))
        (messages (updateRoutingTables 10 10 sinkPair)) = [(''S1'', ''S2'')]
   \<and> list_all (linked (nodes (updateRoutingTables 10 10 sinkPair)))
        (messages (updateRoutingTables 10 10 sinkPair))"
proof -
  have p: "appends P w w' \<Longrightarrow> messages w = [] \<Longrightarrow> list_all P (messages w')" for P w w'
    unfolding appends_def by (auto simp: list_all_iff)
  have c: "appends P w w' \<Longrightarrow> list_all P (drop (length (messages w)) (messages w'))" for P w w'
    unfolding appends_def by (auto simp: list_all_iff)
  have q: "list_all P xs \<Longrightarrow> list_all Q xs \<Longrightarrow> list_all (\<lambda>m. P m \<and> Q m) xs" for P Q xs
    by (simp add: list_all_iff)
  have t2: "toNodeId triageT2 = ''B''" by code_simp
  note tL = new_messages_follow_links_or_routes
    [where w = lineWorld and now = 11 and dt = 1 and newId = "''t1''" and ?r1.0 = 0 and ?r2.0 = 0]
  note tF = new_messages_follow_links_or_routes
    [where w = floodedWorld and now = 11 and fromId = "''B''" and n = "nodes floodedWorld ! 1"
       and newId = "''t1''" and mt = Triage and sevArg = "Some Red" and m = triageT2
       and r = "nodes floodedWorld ! 1"]
  note tR = new_messages_follow_links_or_routes
    [where w = routedWorld and now = 11 and fromId = "''B''" and n = "nodes routedWorld ! 1"
       and newId = "''t1''" and mt = Triage and sevArg = "Some Red" and m = triageT2
       and r = "nodes routedWorld ! 1"]
  note tS = new_messages_follow_links_or_routes
    [where w = sinkPairRoutes and now = 11 and j = 1]
  note tP = new_messages_follow_links_or_routes
    [where w = sinkPair and now = 10 and now' = 10]
  have L1: "list_all (linked (nodes (updateConnections 11 lineWorld)))
        (drop (length (messages lineWorld)) (messages (updateConnections 11 lineWorld)))"
    using tL ex_sets(16) by (intro c) blast
  have L2: "\<exists>new1 new2.
         messages (tick 1 11 ''t1'' 0 0 lineWorld)
           = filter (\<lambda>m. progress m < 1) (map (advanced 1) (messages lineWorld @ new1)) @ new2
         \<and> list_all (linked (nodes (tick 1 11 ''t1'' 0 0 lineWorld))) (new1 @ new2)"
    and L3: "wfTables (nodes (tick 1 11 ''t1'' 0 0 lineWorld))"
    using tL ex_sets(16,17) unfolding list_all_iff by blast+
  have F1: "list_all (linked (nodes floodedWorld))
        (messages (sendMessage 11 ''t1'' ''B'' Triage (Some Red) floodedWorld))"
    and F2: "list_all (linked (nodes floodedWorld))
        (messages (onMessageArrival 11 triageT2 floodedWorld))"
    using tF ex_sets(1,3,4) t2 by (auto intro!: p [OF _ ex_sets(2)])
  have R1: "list_all (linked (nodes routedWorld))
        (messages (sendMessage 11 ''t1'' ''B'' Triage (Some Red) routedWorld))"
    and R2: "list_all (linked (nodes routedWorld))
        (messages (onMessageArrival 11 triageT2 routedWorld))"
    and R3: "list_all (viaRoute (nodes routedWorld))
        (messages (sendMessage 11 ''t1'' ''B'' Triage (Some Red) routedWorld))"
    and R4: "list_all (viaRoute (nodes routedWorld))
        (messages (onMessageArrival 11 triageT2 routedWorld))"
    using tR ex_sets(5,6,8,9) t2 by (auto intro!: p [OF _ ex_sets(7)])
  have S1: "list_all (viaRoute (nodes sinkPairRoutes))
        (messages (syncNewSinkFromExistingSinks 11 1 sinkPairRoutes))"
    and S2: "list_all (linked (nodes sinkPairRoutes))
        (messages (syncNewSinkFromExistingSinks 11 1 sinkPairRoutes))"
    using tS ex_sets(10,11) by (auto intro!: p [OF _ ex_sets(12)])
  have P1: "routesSound (nodes (updateRoutingTables 10 10 sinkPair))"
    and P2: "list_all (linked (nodes (updateRoutingTables 10 10 sinkPair)))
        (messages (updateRoutingTables 10 10 sinkPair))"
    using tP ex_sets(13,14) by (auto intro!: p [OF _ ex_sets(15)])
  have g: "map_option (\<lambda>n. mode (routingState n)) (getNode ''B'' (nodes floodedWorld))
           = Some Flooding"
    "map_option (\<lambda>n. mode (routingState n)) (getNode ''B'' (nodes routedWorld))
     = Some Intelligent"
    by code_simp+
  show ?thesis
    using ex_sets(1,5,6,10,11,13,14,16,17) ex_ends g L1 L2 L3 F1 F2 q [OF R3 R1] q [OF R4 R2]
      q [OF S1 S2] P1 P2
    by (intro conjI) assumption+
qed

section \<open>The mode table after a routing pass\<close>














end
